theory Spec2Isabelle
  imports Complex_Main "HOL-Library.Sublist" "HOL-Library.Signed_Division"
begin

section \<open>C values: results, strings, checked int arithmetic\<close>

text \<open>
  The program is C. A function of the model returns \<open>Inr v\<close> where the C function returns
  \<open>v\<close>, and \<open>Inl e\<close> where C leaves the behaviour undefined: a read outside the buffer of a
  string, a read of a table cell that was never written, a conversion of a \<open>double\<close> that
  does not fit \<open>int\<close>. An \<open>exit(EXIT_FAILURE)\<close> of \<open>main\<close> is an \<open>Inl e\<close> as well.

  String lengths and loop counters are numbers without a bound: the model assumes that a
  string is shorter than \<open>2^31 - 1\<close> bytes, so that a length and a length plus one fit
  \<open>int\<close>. The arithmetic of \<open>hash\<close> and \<open>rehash\<close>, whose values double with every symbol of
  the pattern, and the products \<open>lenA * lenB\<close> and \<open>i * lenB\<close> of \<open>lcss\<close>, which grow with the
  product of the two lengths, are checked against the range of the 32-bit \<open>int\<close>.

  C leaves the overflow of a signed operation undefined, and compiled code usually wraps
  around. The model carries both readings: \<open>hash\<close>, \<open>rehash\<close>, \<open>karpRabin\<close>, \<open>lcss\<close> and \<open>main\<close>
  take the reading as their first argument, which is not an argument of the C functions.
  Under \<open>Undefined\<close> an overflow is the error \<open>SignedOverflow\<close>; under \<open>Wraps\<close> the result is
  reduced to 32 bits in two's complement.
\<close>

datatype overflow = Undefined | Wraps

datatype error =
    OutOfBounds
  | UninitialisedRead
  | NullDereference
  | SignedOverflow
  | ConversionOverflow
  | PatternLongerThanSequence
  | InvalidArguments

definition bind :: "error + 'a \<Rightarrow> ('a \<Rightarrow> error + 'b) \<Rightarrow> error + 'b" where
  "bind m f = (case m of Inl e \<Rightarrow> Inl e | Inr v \<Rightarrow> f v)"

text \<open>
  A \<open>char *\<close> argument points to a buffer that holds the bytes of the list and then the
  terminating NUL. Index \<open>length s\<close> is the terminator; anything after it is outside the
  buffer.
\<close>

definition NUL :: char where
  "NUL = CHR 0x00"

definition char_at :: "string \<Rightarrow> nat \<Rightarrow> error + char" where
  "char_at s i =
     (if i < length s then Inr (s ! i)
      else if i = length s then Inr NUL
      else Inl OutOfBounds)"

fun strlen :: "string \<Rightarrow> nat" where
  "strlen [] = 0"
| "strlen (c # cs) = (if c = NUL then 0 else Suc (strlen cs))"

text \<open>The characters of a C string: the bytes before the first NUL.\<close>

definition chars :: "string \<Rightarrow> string" where
  "chars s = take (strlen s) s"

text \<open>
  \<open>(int) c\<close> for a plain \<open>char\<close>, taken as signed (as gcc does on x86); the alphabet
  and NUL are below 128, where the signedness of \<open>char\<close> makes no difference.
\<close>

definition int_of_char :: "char \<Rightarrow> int" where
  "int_of_char c = (if of_char c < (128 :: int) then of_char c else of_char c - 256)"

definition INT_MAX :: int where
  "INT_MAX = 2147483647"

definition INT_MIN :: int where
  "INT_MIN = - 2147483648"

text \<open>The value of 32 bits in two's complement that is congruent to \<open>v\<close> modulo \<open>2^32\<close>.\<close>

definition wrap_int :: "int \<Rightarrow> int" where
  "wrap_int v = (v + 2147483648) mod 4294967296 - 2147483648"

text \<open>
  The result of an \<open>int\<close> operation with the exact value \<open>v\<close>: \<open>v\<close> when it fits; otherwise
  an error under \<open>Undefined\<close>, and \<open>v\<close> wrapped around under \<open>Wraps\<close>.
\<close>

definition int_result :: "overflow \<Rightarrow> int \<Rightarrow> error + int" where
  "int_result ov v =
     (if INT_MIN \<le> v \<and> v \<le> INT_MAX then Inr v
      else case ov of Undefined \<Rightarrow> Inl SignedOverflow | Wraps \<Rightarrow> Inr (wrap_int v))"

definition add_int :: "overflow \<Rightarrow> int \<Rightarrow> int \<Rightarrow> error + int" where
  "add_int ov a b = int_result ov (a + b)"

definition sub_int :: "overflow \<Rightarrow> int \<Rightarrow> int \<Rightarrow> error + int" where
  "sub_int ov a b = int_result ov (a - b)"

definition mul_int :: "overflow \<Rightarrow> int \<Rightarrow> int \<Rightarrow> error + int" where
  "mul_int ov a b = int_result ov (a * b)"

text \<open>
  \<open>(int) pow(2, p)\<close>: \<open>pow\<close> returns the double \<open>2^p\<close>. For \<open>p < 0\<close> that is below 1 and
  the conversion truncates it to 0; for \<open>p > 30\<close> it does not fit \<open>int\<close> and the
  conversion is undefined (under both readings: it is not an overflow of \<open>int\<close> arithmetic).
\<close>

definition pow2_int :: "int \<Rightarrow> error + int" where
  "pow2_int p =
     (if p < 0 then Inr 0
      else if p \<le> 30 then Inr (2 ^ nat p)
      else Inl ConversionOverflow)"

section \<open>bruteForce (lines 79-91)\<close>

text \<open>
  The inner \<open>while\<close> of lines 83-85, which \<open>karpRabin\<close> repeats at lines 108-110:
  \<open>j\<close> advances while it is below \<open>patternLength\<close> and the two characters agree. The
  second character is read only when \<open>j < patternLength\<close> (\<open>&&\<close> short-circuits).
\<close>

function compare :: "string \<Rightarrow> string \<Rightarrow> nat \<Rightarrow> nat \<Rightarrow> nat \<Rightarrow> error + nat" where
  "compare dnaSequence patternSequence patternLength i j =
     (if j < patternLength then
        bind (char_at patternSequence j) (\<lambda>a.
        bind (char_at dnaSequence (i + j)) (\<lambda>b.
          if a = b then compare dnaSequence patternSequence patternLength i (j + 1)
          else Inr j))
      else Inr j)"
  by pat_completeness auto
termination
  by (relation "measure (\<lambda>(d, p, m, i, j). m - j)") auto

declare compare.simps [simp del]

text \<open>
  The \<open>for\<close> of lines 81-89. \<open>dnaLength - patternLength\<close> is an \<open>int\<close> and may be negative;
  then the body never runs.
\<close>

function bruteForce_loop :: "string \<Rightarrow> string \<Rightarrow> nat \<Rightarrow> nat \<Rightarrow> nat \<Rightarrow> int \<Rightarrow> error + int" where
  "bruteForce_loop dnaSequence patternSequence dnaLength patternLength i occurrences =
     (if int i \<le> int dnaLength - int patternLength then
        bind (compare dnaSequence patternSequence patternLength i 0) (\<lambda>j.
          bruteForce_loop dnaSequence patternSequence dnaLength patternLength (i + 1)
            (if j = patternLength then occurrences + 1 else occurrences))
      else Inr occurrences)"
  by pat_completeness auto
termination
  by (relation "measure (\<lambda>(d, p, n, m, i, occ). nat (int n - int m + 1 - int i))") auto

declare bruteForce_loop.simps [simp del]

definition bruteForce :: "string \<Rightarrow> string \<Rightarrow> error + int" where
  "bruteForce dnaSequence patternSequence =
     bruteForce_loop dnaSequence patternSequence (strlen dnaSequence) (strlen patternSequence) 0 0"

section \<open>hash and rehash (lines 123-139)\<close>

text \<open>
  The \<open>for\<close> of lines 125-128: \<open>i\<close> runs from 0 to \<open>length\<close> inclusive, \<open>p\<close> counts down
  from \<open>length\<close>. \<open>%\<close> truncates towards zero (\<open>smod\<close>).
\<close>

function hash_loop :: "overflow \<Rightarrow> string \<Rightarrow> int \<Rightarrow> nat \<Rightarrow> int \<Rightarrow> int \<Rightarrow> error + int" where
  "hash_loop ov sequence len i p val =
     (if int i \<le> len then
        bind (char_at sequence i) (\<lambda>c.
        bind (pow2_int p) (\<lambda>w.
        bind (mul_int ov (int_of_char c) w) (\<lambda>t.
        bind (add_int ov val t) (\<lambda>v.
          hash_loop ov sequence len (i + 1) (p - 1) v))))
      else Inr val)"
  by pat_completeness auto
termination
  by (relation "measure (\<lambda>(ov, s, len, i, p, v). nat (len + 1 - int i))") auto

declare hash_loop.simps [simp del]

definition hash :: "overflow \<Rightarrow> string \<Rightarrow> int \<Rightarrow> error + int" where
  "hash ov sequence len =
     bind (hash_loop ov sequence len 0 len 0) (\<lambda>val. Inr (val smod INT_MAX))"

definition rehash :: "overflow \<Rightarrow> int \<Rightarrow> int \<Rightarrow> int \<Rightarrow> int \<Rightarrow> error + int" where
  "rehash ov before_c hash' after_c power' =
     bind (pow2_int power') (\<lambda>w.
     bind (mul_int ov before_c w) (\<lambda>t.
     bind (sub_int ov hash' t) (\<lambda>d.
     bind (mul_int ov d 2) (\<lambda>e.
     bind (add_int ov e after_c) (\<lambda>v.
       Inr (v smod INT_MAX))))))"

section \<open>karpRabin (lines 101-118)\<close>

text \<open>
  The \<open>for\<close> of lines 105-116: the characters are compared only when the two hash values
  are equal; the window's hash is then rolled forward, reading \<open>dnaSequence[i]\<close> and
  \<open>dnaSequence[i + patternLength]\<close>.
\<close>

function karpRabin_loop ::
  "overflow \<Rightarrow> string \<Rightarrow> string \<Rightarrow> nat \<Rightarrow> nat \<Rightarrow> int \<Rightarrow> nat \<Rightarrow> int \<Rightarrow> int \<Rightarrow> error + int" where
  "karpRabin_loop ov dnaSequence patternSequence dnaLength patternLength patHash i dnaHash
     occurrences =
     (if int i \<le> int dnaLength - int patternLength then
        bind (if patHash = dnaHash then
                bind (compare dnaSequence patternSequence patternLength i 0) (\<lambda>j.
                  Inr (if j = patternLength then occurrences + 1 else occurrences))
              else Inr occurrences) (\<lambda>occurrences'.
        bind (char_at dnaSequence i) (\<lambda>leaving.
        bind (char_at dnaSequence (i + patternLength)) (\<lambda>entering.
        bind (rehash ov (int_of_char leaving) dnaHash (int_of_char entering)
                (int patternLength - 1)) (\<lambda>dnaHash'.
          karpRabin_loop ov dnaSequence patternSequence dnaLength patternLength patHash (i + 1)
            dnaHash' occurrences'))))
      else Inr occurrences)"
  by pat_completeness auto
termination
  by (relation "measure (\<lambda>(ov, d, p, n, m, ph, i, dh, occ). nat (int n - int m + 1 - int i))")
    auto

declare karpRabin_loop.simps [simp del]

definition karpRabin :: "overflow \<Rightarrow> string \<Rightarrow> string \<Rightarrow> error + int" where
  "karpRabin ov dnaSequence patternSequence =
     (let dnaLength = strlen dnaSequence; patternLength = strlen patternSequence in
      bind (hash ov patternSequence (int patternLength - 1)) (\<lambda>patHash.
      bind (hash ov dnaSequence (int patternLength - 1)) (\<lambda>dnaHash.
        karpRabin_loop ov dnaSequence patternSequence dnaLength patternLength patHash 0
          dnaHash 0)))"

section \<open>lcss (lines 144-168)\<close>

text \<open>
  Line 148 computes the number of cells as the \<open>int\<close> product \<open>lenA * lenB\<close>, converts it to
  \<open>size_t\<close> (64 bits, arithmetic modulo \<open>2^64\<close>) and multiplies it by \<open>sizeof(int)\<close>.
  \<open>malloc\<close> returns a null pointer for a request above \<open>PTRDIFF_MAX\<close>, as glibc does; for
  any other request the model assumes that the memory is there. \<open>malloc\<close> does not
  initialise the block: a cell is \<open>None\<close> until it is written.
\<close>

type_synonym table = "int option list"

definition sizeof_int :: int where
  "sizeof_int = 4"

text \<open>A \<open>size_t\<close> value is a number from 0 to \<open>2^64 - 1\<close>.\<close>

definition size_t_of_int :: "int \<Rightarrow> int" where
  "size_t_of_int n = n mod 18446744073709551616"

definition size_t_mul :: "int \<Rightarrow> int \<Rightarrow> int" where
  "size_t_mul a b = (a * b) mod 18446744073709551616"

definition PTRDIFF_MAX :: int where
  "PTRDIFF_MAX = 9223372036854775807"

definition malloc :: "int \<Rightarrow> table option" where
  "malloc bytes =
     (if bytes \<le> PTRDIFF_MAX then Some (replicate (nat (bytes div sizeof_int)) None)
      else None)"

text \<open>
  \<open>lcss\<close> never checks the pointer. Its first use is the write of line 150, in an
  iteration that always runs (\<open>lenA\<close> is at least 1): with a null pointer the call ends
  there.
\<close>

definition deref :: "table option \<Rightarrow> error + table" where
  "deref arr = (case arr of None \<Rightarrow> Inl NullDereference | Some cells \<Rightarrow> Inr cells)"

text \<open>
  The address \<open>arr + row * lenB + col\<close>, as an offset in cells: the product is an \<open>int\<close>
  operation, the additions move the pointer. An offset outside the block is no cell.
\<close>

definition cell :: "overflow \<Rightarrow> int \<Rightarrow> int \<Rightarrow> int \<Rightarrow> error + int" where
  "cell ov row lenB col = bind (mul_int ov row lenB) (\<lambda>k. Inr (k + col))"

definition load :: "table \<Rightarrow> int \<Rightarrow> error + int" where
  "load arr k =
     (if 0 \<le> k \<and> k < int (length arr) then
        (case arr ! nat k of None \<Rightarrow> Inl UninitialisedRead | Some v \<Rightarrow> Inr v)
      else Inl OutOfBounds)"

definition store :: "table \<Rightarrow> int \<Rightarrow> int \<Rightarrow> error + table" where
  "store arr k v =
     (if 0 \<le> k \<and> k < int (length arr) then Inr (arr[nat k := Some v])
      else Inl OutOfBounds)"

text \<open>Lines 149-151: column 0 of every row.\<close>

function lcss_col0 :: "overflow \<Rightarrow> table \<Rightarrow> nat \<Rightarrow> nat \<Rightarrow> nat \<Rightarrow> error + table" where
  "lcss_col0 ov arr lenA lenB i =
     (if i < lenA then
        bind (cell ov (int i) (int lenB) 0) (\<lambda>k.
        bind (store arr k 0) (\<lambda>arr'.
          lcss_col0 ov arr' lenA lenB (i + 1)))
      else Inr arr)"
  by pat_completeness auto
termination
  by (relation "measure (\<lambda>(ov, arr, lenA, lenB, i). lenA - i)") auto

declare lcss_col0.simps [simp del]

text \<open>Lines 152-154: row 0.\<close>

function lcss_row0 :: "table \<Rightarrow> nat \<Rightarrow> nat \<Rightarrow> error + table" where
  "lcss_row0 arr lenB j =
     (if j < lenB then
        bind (store arr (int j) 0) (\<lambda>arr'. lcss_row0 arr' lenB (j + 1))
      else Inr arr)"
  by pat_completeness auto
termination
  by (relation "measure (\<lambda>(arr, lenB, j). lenB - j)") auto

declare lcss_row0.simps [simp del]

text \<open>
  Lines 156-163: the cells of row \<open>i\<close>, from column \<open>j\<close> on. The \<open>+ 1\<close> of line 158 is an
  \<open>int\<close> addition.
\<close>

function lcss_row ::
  "overflow \<Rightarrow> string \<Rightarrow> string \<Rightarrow> nat \<Rightarrow> nat \<Rightarrow> nat \<Rightarrow> table \<Rightarrow> error + table" where
  "lcss_row ov sequenceA sequenceB lenB i j arr =
     (if j < lenB then
        bind (char_at sequenceA (i - 1)) (\<lambda>a.
        bind (char_at sequenceB (j - 1)) (\<lambda>b.
        bind (if a = b then
                bind (cell ov (int i - 1) (int lenB) (int j - 1)) (\<lambda>diag.
                bind (load arr diag) (\<lambda>v.
                bind (add_int ov v 1) (\<lambda>v'.
                bind (cell ov (int i) (int lenB) (int j)) (\<lambda>here.
                  store arr here v'))))
              else
                bind (cell ov (int i) (int lenB) (int j - 1)) (\<lambda>left.
                bind (load arr left) (\<lambda>x.
                bind (cell ov (int i - 1) (int lenB) (int j)) (\<lambda>up.
                bind (load arr up) (\<lambda>y.
                bind (cell ov (int i) (int lenB) (int j)) (\<lambda>here.
                  store arr here (max x y))))))) (\<lambda>arr'.
          lcss_row ov sequenceA sequenceB lenB i (j + 1) arr')))
      else Inr arr)"
  by pat_completeness auto
termination
  by (relation "measure (\<lambda>(ov, A, B, lenB, i, j, arr). lenB - j)") auto

declare lcss_row.simps [simp del]

text \<open>Lines 155-164: the rows from \<open>i\<close> on.\<close>

function lcss_rows ::
  "overflow \<Rightarrow> string \<Rightarrow> string \<Rightarrow> nat \<Rightarrow> nat \<Rightarrow> nat \<Rightarrow> table \<Rightarrow> error + table" where
  "lcss_rows ov sequenceA sequenceB lenA lenB i arr =
     (if i < lenA then
        bind (lcss_row ov sequenceA sequenceB lenB i 1 arr) (\<lambda>arr'.
          lcss_rows ov sequenceA sequenceB lenA lenB (i + 1) arr')
      else Inr arr)"
  by pat_completeness auto
termination
  by (relation "measure (\<lambda>(ov, A, B, lenA, lenB, i, arr). lenA - i)") auto

declare lcss_rows.simps [simp del]

definition lcss :: "overflow \<Rightarrow> string \<Rightarrow> string \<Rightarrow> error + int" where
  "lcss ov sequenceA sequenceB =
     (let lenA = strlen sequenceA + 1;
          lenB = strlen sequenceB + 1
      in
      bind (mul_int ov (int lenA) (int lenB)) (\<lambda>n.
      bind (deref (malloc (size_t_mul (size_t_of_int n) sizeof_int))) (\<lambda>arr.
      bind (lcss_col0 ov arr lenA lenB 0) (\<lambda>arr1.
      bind (lcss_row0 arr1 lenB 0) (\<lambda>arr2.
      bind (lcss_rows ov sequenceA sequenceB lenA lenB 1 arr2) (\<lambda>arr3.
      bind (cell ov (int lenA - 1) (int lenB) (int lenB - 1)) (\<lambda>last.
        load arr3 last)))))))"

section \<open>main, from the length check on (lines 196-218)\<close>

text \<open>
  A \<open>float\<close> is a finite number, an infinity or NaN. Finite values are kept exact: the
  rounding of \<open>float\<close> is not modelled. Division follows IEEE 754 at a zero divisor:
  \<open>0 / 0\<close> is NaN, and a nonzero number over zero is an infinity.
\<close>

datatype c_float = Finite rat | PlusInfinity | MinusInfinity | NaN

definition float_div :: "rat \<Rightarrow> rat \<Rightarrow> c_float" where
  "float_div x y =
     (if y = 0 then (if x = 0 then NaN else if 0 < x then PlusInfinity else MinusInfinity)
      else Finite (x / y))"

fun float_sub :: "rat \<Rightarrow> c_float \<Rightarrow> c_float" where
  "float_sub x (Finite y) = Finite (x - y)"
| "float_sub x PlusInfinity = MinusInfinity"
| "float_sub x MinusInfinity = PlusInfinity"
| "float_sub x NaN = NaN"

text \<open>Line 211: \<open>1 - (float)lcssLength / min(strlen(dnaSequence), strlen(patternSequence))\<close>.\<close>

definition distance :: "int \<Rightarrow> string \<Rightarrow> string \<Rightarrow> c_float" where
  "distance lcssLength dnaSequence patternSequence =
     float_sub 1 (float_div (of_int lcssLength)
       (of_nat (min (strlen dnaSequence) (strlen patternSequence))))"

datatype report = Found int | Similarity int c_float

text \<open>
  \<open>main\<close> once the two files are loaded: \<open>mode\<close> is \<open>argv[1]\<close>. An \<open>exit(EXIT_FAILURE)\<close>
  is an error value; the two lengths are those of the loaded strings.
\<close>

definition main :: "overflow \<Rightarrow> string \<Rightarrow> string \<Rightarrow> string \<Rightarrow> error + report" where
  "main ov mode dnaSequence patternSequence =
     (let dnaLength = strlen dnaSequence; patternLength = strlen patternSequence in
      if dnaLength < patternLength \<and> mode \<noteq> ''-lcss'' then Inl PatternLongerThanSequence
      else if mode = ''-bf'' then
        bind (bruteForce dnaSequence patternSequence) (\<lambda>occurrences. Inr (Found occurrences))
      else if mode = ''-kr'' then
        bind (karpRabin ov dnaSequence patternSequence) (\<lambda>occurrences.
          Inr (Found occurrences))
      else if mode = ''-lcss'' then
        bind (lcss ov dnaSequence patternSequence) (\<lambda>lcssLength.
          Inr (Similarity lcssLength (distance lcssLength dnaSequence patternSequence)))
      else Inl InvalidArguments)"

section \<open>Reference definitions\<close>

text \<open>
  The occurrence count as the specification words it: the number of start offsets
  \<open>i\<close> with \<open>0 \<le> i \<le> |s| - |p|\<close> at which the window \<open>s[i..i+|p|)\<close> is \<open>p\<close>. There is
  no such offset when \<open>p\<close> is longer than \<open>s\<close>.
\<close>

definition window :: "string \<Rightarrow> nat \<Rightarrow> nat \<Rightarrow> string" where
  "window s i n = take n (drop i s)"

definition occurrence_count :: "string \<Rightarrow> string \<Rightarrow> nat" where
  "occurrence_count s p =
     length (filter (\<lambda>i. window s i (length p) = p) [0 ..< Suc (length s) - length p])"

text \<open>
  The polynomial hash of the specification: base 2, the leftmost symbol weighted most,
  weight \<open>2^(windowLength - 1 - position)\<close>; \<open>code s k\<close> is \<open>(int) s[k]\<close> for an index up
  to the terminator, and \<open>codes s i m\<close> are the codes of the \<open>m\<close> bytes from index \<open>i\<close> on.
\<close>

fun weighted_sum :: "int list \<Rightarrow> int" where
  "weighted_sum [] = 0"
| "weighted_sum (c # cs) = c * 2 ^ length cs + weighted_sum cs"

definition code :: "string \<Rightarrow> nat \<Rightarrow> int" where
  "code s k = int_of_char ((chars s @ [NUL]) ! k)"

definition codes :: "string \<Rightarrow> nat \<Rightarrow> nat \<Rightarrow> int list" where
  "codes s i m = map (code s) [i ..< i + m]"

text \<open>Strings of 7-bit characters, as the alphabet \<open>a, c, g, t\<close> is.\<close>

definition ascii :: "string \<Rightarrow> bool" where
  "ascii s \<longleftrightarrow> (\<forall>c \<in> set s. (of_char c :: int) < 128)"

text \<open>
  The table of the specification: \<open>T[0][*] = T[*][0] = 0\<close>, and for \<open>i, j \<ge> 1\<close>
  \<open>T[i][j] = T[i-1][j-1] + 1\<close> when \<open>A[i-1] = B[j-1]\<close>, else
  \<open>max(T[i-1][j], T[i][j-1])\<close>.
\<close>

fun lcs_table :: "string \<Rightarrow> string \<Rightarrow> nat \<Rightarrow> nat \<Rightarrow> int" where
  "lcs_table A B 0 j = 0"
| "lcs_table A B (Suc i) 0 = 0"
| "lcs_table A B (Suc i) (Suc j) =
     (if A ! i = B ! j then lcs_table A B i j + 1
      else max (lcs_table A B i (Suc j)) (lcs_table A B (Suc i) j))"

text \<open>The common subsequences of two strings; the longest one has the LCS length.\<close>

definition common_subsequences :: "string \<Rightarrow> string \<Rightarrow> string set" where
  "common_subsequences A B = {zs. subseq zs A \<and> subseq zs B}"

text \<open>
  The invariant of the loops of \<open>lcss\<close>: row 0, column 0, the rows before \<open>i\<close> and the
  cells of row \<open>i\<close> before column \<open>j\<close> hold the values of the table.
\<close>

definition table_inv :: "string \<Rightarrow> string \<Rightarrow> nat \<Rightarrow> nat \<Rightarrow> nat \<Rightarrow> nat \<Rightarrow> table \<Rightarrow> bool" where
  "table_inv A B lenA lenB i j arr \<longleftrightarrow>
     length arr = lenA * lenB \<and>
     (\<forall>r c. r < lenA \<and> c < lenB \<and> (r = 0 \<or> c = 0 \<or> r < i \<or> (r = i \<and> c < j))
        \<longrightarrow> arr ! (r * lenB + c) = Some (lcs_table (chars A) (chars B) r c))"

section \<open>Strings and results\<close>

lemma strlen_le_length: "strlen s \<le> length s"
  by (induction s) auto

lemma length_chars: "length (chars s) = strlen s"
  by (simp add: chars_def strlen_le_length)

lemma strlen_nth: "i < strlen s \<Longrightarrow> s ! i \<noteq> NUL"
  by (induction s arbitrary: i) (auto simp: nth_Cons split: if_splits nat.splits)

lemma strlen_stop: "strlen s < length s \<Longrightarrow> s ! strlen s = NUL"
  by (induction s) auto

lemma chars_nth: "i < strlen s \<Longrightarrow> chars s ! i = s ! i"
  by (simp add: chars_def)

lemma char_at_chars: "i < strlen s \<Longrightarrow> char_at s i = Inr (chars s ! i)"
  using strlen_le_length [of s] by (simp add: char_at_def chars_nth)

lemma char_at_strlen: "char_at s (strlen s) = Inr NUL"
  using strlen_le_length [of s] strlen_stop [of s] by (auto simp: char_at_def)

lemma NUL_notin_chars: "NUL \<notin> set (chars s)"
  by (auto simp: in_set_conv_nth length_chars chars_nth dest: strlen_nth)

lemma strlen_no_NUL: "NUL \<notin> set s \<Longrightarrow> strlen s = length s"
  by (induction s) auto

lemma chars_no_NUL: "NUL \<notin> set s \<Longrightarrow> chars s = s"
  by (simp add: chars_def strlen_no_NUL)

lemma bind_Inr [simp]: "bind (Inr v) f = f v"
  by (simp add: bind_def)

lemma bind_Inl [simp]: "bind (Inl e) f = Inl e"
  by (simp add: bind_def)

lemma compare_result:
  assumes "m = strlen P" and "i + m \<le> strlen S" and "j \<le> m"
  shows "\<exists>k. compare S P m i j = Inr k \<and> j \<le> k \<and> k \<le> m \<and>
           (k = m \<longleftrightarrow> (\<forall>l. j \<le> l \<and> l < m \<longrightarrow> chars P ! l = chars S ! (i + l)))"
  using assms
proof (induction S P m i j rule: compare.induct)
  case (1 S P m i j)
  show ?case
  proof (cases "j < m")
    case False
    with "1.prems" show ?thesis by (subst compare.simps) auto
  next
    case True
    with "1.prems" have rd: "char_at P j = Inr (chars P ! j)" "char_at S (i + j) = Inr (chars S ! (i + j))"
      by (simp_all add: char_at_chars)
    show ?thesis
    proof (cases "chars P ! j = chars S ! (i + j)")
      case False
      with True rd show ?thesis
        by (subst compare.simps) auto
    next
      case eq: True
      from "1.IH" [OF True eq] "1.prems" True
      obtain k where k: "compare S P m i (j + 1) = Inr k" "j + 1 \<le> k" "k \<le> m"
        "k = m \<longleftrightarrow> (\<forall>l. j + 1 \<le> l \<and> l < m \<longrightarrow> chars P ! l = chars S ! (i + l))"
        by auto
      have "(\<forall>l. j \<le> l \<and> l < m \<longrightarrow> chars P ! l = chars S ! (i + l))
            \<longleftrightarrow> (\<forall>l. j + 1 \<le> l \<and> l < m \<longrightarrow> chars P ! l = chars S ! (i + l))"
        using eq by (metis Suc_eq_plus1 Suc_leI le_eq_less_or_eq Suc_leD)
      with k True rd eq show ?thesis
        by (subst compare.simps) auto
    qed
  qed
qed

lemma window_Nil [simp]: "window s i 0 = []"
  by (simp add: window_def)

lemma window_eq_iff:
  assumes "i + length p \<le> length s"
  shows "window s i (length p) = p \<longleftrightarrow> (\<forall>l < length p. p ! l = s ! (i + l))"
  using assms by (auto simp: window_def list_eq_iff_nth_eq)

lemma compare_full:
  assumes "i + strlen P \<le> strlen S"
  shows "\<exists>k. compare S P (strlen P) i 0 = Inr k \<and>
           (k = strlen P \<longleftrightarrow> window (chars S) i (strlen P) = chars P)"
proof -
  from compare_result [OF refl assms, of 0]
  obtain k where k: "compare S P (strlen P) i 0 = Inr k"
    "k = strlen P \<longleftrightarrow> (\<forall>l. l < strlen P \<longrightarrow> chars P ! l = chars S ! (i + l))"
    by auto
  from assms have "window (chars S) i (length (chars P)) = chars P
      \<longleftrightarrow> (\<forall>l < length (chars P). chars P ! l = chars S ! (i + l))"
    by (intro window_eq_iff) (simp add: length_chars)
  with k show ?thesis by (simp add: length_chars)
qed

lemma bruteForce_loop_count:
  assumes "n = strlen S" and "m = strlen P"
  shows "bruteForce_loop S P n m i occ =
           Inr (occ + int (length (filter (\<lambda>k. window (chars S) k m = chars P) [i ..< Suc n - m])))"
  using assms
proof (induction S P n m i occ rule: bruteForce_loop.induct)
  case (1 S P n m i occ)
  show ?case
  proof (cases "int i \<le> int n - int m")
    case False
    then have "[i ..< Suc n - m] = []" by auto
    with False show ?thesis by (subst bruteForce_loop.simps) simp
  next
    case True
    then have le: "i + m \<le> n" by linarith
    then have upt: "[i ..< Suc n - m] = i # [i + 1 ..< Suc n - m]"
      by (simp add: upt_conv_Cons)
    from compare_full [of i P S] le "1.prems"
    obtain k where k: "compare S P m i 0 = Inr k"
      "k = m \<longleftrightarrow> window (chars S) i m = chars P"
      by auto
    from "1.IH" [OF True "1.prems"] k True upt show ?thesis
      by (subst bruteForce_loop.simps) simp
  qed
qed

text \<open>
  The reference count read symbol for symbol: the number of offsets \<open>i\<close> with
  \<open>i + |p| \<le> |s|\<close> at which every symbol of \<open>p\<close> equals the symbol of \<open>s\<close> it faces.
\<close>

lemma occurrence_count_card:
  "occurrence_count s p =
     card {i. i + length p \<le> length s \<and> (\<forall>j < length p. p ! j = s ! (i + j))}"
proof -
  let ?n = "Suc (length s) - length p"
  have "occurrence_count s p = card {i. i < ?n \<and> window s i (length p) = p}"
    unfolding occurrence_count_def length_filter_conv_card
    by (intro arg_cong [where f = card]) auto
  also have "{i. i < ?n \<and> window s i (length p) = p}
      = {i. i + length p \<le> length s \<and> (\<forall>j < length p. p ! j = s ! (i + j))}"
    using window_eq_iff [of _ p s] by auto
  finally show ?thesis .
qed

section \<open>The claims on bruteForce and on both matchers\<close>



text \<open>
  C9. On \<open>S = "aaaa"\<close> and \<open>P = "aa"\<close> both matchers return 3.
\<close>

theorem overlapping_matches_example:
  "bruteForce ''aaaa'' ''aa'' = Inr 3 \<and> karpRabin ov ''aaaa'' ''aa'' = Inr 3"
proof -
  have "bruteForce ''aaaa'' ''aa'' = Inr 3"
    and "karpRabin Undefined ''aaaa'' ''aa'' = Inr 3"
    and "karpRabin Wraps ''aaaa'' ''aa'' = Inr 3"
    by code_simp+
  then show ?thesis by (cases ov) simp_all
qed

lemma bruteForce_longer_pattern:
  assumes "strlen S < strlen P"
  shows "bruteForce S P = Inr 0"
  using assms by (simp add: bruteForce_def bruteForce_loop.simps)

lemma karpRabin_longer_pattern:
  assumes "strlen S < strlen P"
  shows "karpRabin ov S P = Inr 0 \<or> (\<exists>e. karpRabin ov S P = Inl e)"
proof -
  have loop: "karpRabin_loop ov S P (strlen S) (strlen P) ph 0 dh 0 = Inr 0" for ph dh
    using assms by (simp add: karpRabin_loop.simps)
  show ?thesis
    by (cases "hash ov P (int (strlen P) - 1)"; cases "hash ov S (int (strlen P) - 1)")
       (simp_all add: karpRabin_def Let_def loop)
qed

text \<open>
  C6, as stated, fails. \<open>main\<close> exits with an error when the pattern is longer than the
  sequence and the mode is not \<open>-lcss\<close>. And \<open>karpRabin\<close> is not made for such a call:
  \<open>hash(dnaSequence, patternLength - 1)\<close> at line 104 reads \<open>patternLength\<close> bytes of the
  sequence, whatever its length. With the empty sequence and the pattern \<open>"aa"\<close> the second
  byte read lies after the terminator, under either reading of overflow.
\<close>

theorem longer_pattern_counterexample:
  "strlen [] < strlen ''aa''
   \<and> karpRabin Undefined [] ''aa'' = Inl OutOfBounds
   \<and> karpRabin Wraps [] ''aa'' = Inl OutOfBounds
   \<and> main Undefined ''-kr'' [] ''aa'' = Inl PatternLongerThanSequence
   \<and> main Undefined ''-bf'' [] ''aa'' = Inl PatternLongerThanSequence"
  by code_simp

text \<open>
  C6, amended. When the pattern is longer than the sequence, \<open>bruteForce\<close> returns 0;
  \<open>karpRabin\<close> returns 0 if it returns a count at all; and \<open>main\<close> rejects the input with
  an error (line 196) before it calls either matcher.
\<close>

theorem longer_pattern:
  assumes "strlen S < strlen P"
  shows "bruteForce S P = Inr 0
       \<and> (karpRabin ov S P = Inr 0 \<or> (\<exists>e. karpRabin ov S P = Inl e))
       \<and> main ov ''-bf'' S P = Inl PatternLongerThanSequence
       \<and> main ov ''-kr'' S P = Inl PatternLongerThanSequence"
  using assms bruteForce_longer_pattern [OF assms] karpRabin_longer_pattern [OF assms, of ov]
  by (simp add: main_def)

theorem longer_pattern_witness:
  "strlen ''a'' < strlen ''ac''
   \<and> bruteForce ''a'' ''ac'' = Inr 0
   \<and> (karpRabin Undefined ''a'' ''ac'' = Inr 0 \<or> (\<exists>e. karpRabin Undefined ''a'' ''ac'' = Inl e))
   \<and> main Undefined ''-bf'' ''a'' ''ac'' = Inl PatternLongerThanSequence
   \<and> main Undefined ''-kr'' ''a'' ''ac'' = Inl PatternLongerThanSequence"
proof -
  have h: "strlen ''a'' < strlen ''ac''" by (simp add: NUL_def)
  from longer_pattern [OF h, of Undefined] h show ?thesis by blast
qed

section \<open>The rolling hash on patterns of 1 to 24 symbols\<close>

text \<open>
  With at most 24 symbols of 7 bits the weighted sum stays below \<open>INT_MAX\<close>: no operation
  of \<open>hash\<close> or \<open>rehash\<close> overflows, \<open>% INT_MAX\<close> changes nothing, and \<open>rehash\<close> turns the
  sum of a window into the sum of the next one. On such patterns \<open>karpRabin\<close> returns what
  \<open>bruteForce\<close> returns, under either reading of overflow.
\<close>

lemma weighted_sum_snoc: "weighted_sum (cs @ [a]) = 2 * weighted_sum cs + a"
  by (induction cs) (simp_all add: algebra_simps)

lemma weighted_sum_bounds:
  assumes "\<forall>c \<in> set cs. 0 \<le> c \<and> c \<le> 127"
  shows "0 \<le> weighted_sum cs \<and> weighted_sum cs \<le> 127 * (2 ^ length cs - 1)"
  using assms
proof (induction cs)
  case Nil
  then show ?case by simp
next
  case (Cons c cs)
  then have c: "0 \<le> c" "c \<le> 127"
    and ih: "0 \<le> weighted_sum cs" "weighted_sum cs \<le> 127 * (2 ^ length cs - 1)"
    by simp_all
  define w :: int where "w = 2 ^ length cs"
  have w: "0 \<le> w" by (simp add: w_def)
  define t where "t = c * w"
  have t: "t \<le> 127 * w" "0 \<le> t"
    using c w by (simp_all add: t_def mult_right_mono)
  have lhs: "weighted_sum (c # cs) = t + weighted_sum cs"
    by (simp add: t_def w_def)
  have rhs: "127 * (2 ^ length (c # cs) - 1) = 254 * w - (127 :: int)"
    by (simp add: w_def)
  from ih have ih': "weighted_sum cs \<le> 127 * w - 127"
    by (simp add: w_def)
  show ?case
    unfolding lhs rhs using t ih(1) ih' by linarith
qed

lemma weighted_sum_short:
  assumes "\<forall>c \<in> set cs. 0 \<le> c \<and> c \<le> 127" and "length cs \<le> 24"
  shows "0 \<le> weighted_sum cs \<and> weighted_sum cs < INT_MAX"
proof -
  from assms(2) have "(2 :: int) ^ length cs \<le> 2 ^ 24"
    by (intro power_increasing) simp_all
  then have "127 * ((2 :: int) ^ length cs - 1) \<le> 127 * (2 ^ 24 - 1)"
    by simp
  with weighted_sum_bounds [OF assms(1)] show ?thesis
    by (simp add: INT_MAX_def)
qed

lemma int_result_fits:
  "INT_MIN \<le> v \<Longrightarrow> v \<le> INT_MAX \<Longrightarrow> int_result ov v = Inr v"
  by (simp add: int_result_def)

lemma int_of_char_NUL [simp]: "int_of_char NUL = 0"
  by (simp add: int_of_char_def NUL_def)

lemma of_char_nonneg: "0 \<le> (of_char c :: int)"
proof -
  have "(of_char c :: int) = int (of_char c)" by (simp add: of_nat_of_char)
  then show ?thesis by simp
qed

lemma int_of_char_ascii:
  "(of_char c :: int) < 128 \<Longrightarrow> 0 \<le> int_of_char c \<and> int_of_char c \<le> 127"
  using of_char_nonneg [of c] by (simp add: int_of_char_def)

lemma code_range:
  assumes "ascii (chars s)" and "k \<le> strlen s"
  shows "0 \<le> code s k \<and> code s k \<le> 127"
proof (cases "k < strlen s")
  case True
  then have "chars s ! k \<in> set (chars s)" by (simp add: length_chars)
  with assms(1) have "(of_char (chars s ! k) :: int) < 128" by (simp add: ascii_def)
  with True show ?thesis
    by (simp add: code_def nth_append length_chars int_of_char_ascii)
next
  case False
  with assms(2) have "k = strlen s" by simp
  then show ?thesis by (simp add: code_def nth_append length_chars)
qed

lemma codes_range:
  assumes "ascii (chars s)" and "i + m \<le> strlen s + 1"
  shows "\<forall>c \<in> set (codes s i m). 0 \<le> c \<and> c \<le> 127"
proof
  fix c assume "c \<in> set (codes s i m)"
  then obtain k where k: "c = code s k" "k < i + m" by (auto simp: codes_def)
  with assms(2) have "k \<le> strlen s" by simp
  with code_range [OF assms(1)] k(1) show "0 \<le> c \<and> c \<le> 127" by simp
qed

lemma char_at_code:
  assumes "k \<le> strlen s"
  shows "\<exists>c. char_at s k = Inr c \<and> int_of_char c = code s k"
proof (cases "k < strlen s")
  case True
  then show ?thesis
    by (simp add: char_at_chars code_def nth_append length_chars)
next
  case False
  with assms have "k = strlen s" by simp
  then show ?thesis
    by (simp add: char_at_strlen code_def nth_append length_chars)
qed

lemma length_codes [simp]: "length (codes s i m) = m"
  by (simp add: codes_def)

lemma codes_Cons:
  assumes "0 < m"
  shows "codes s i m = code s i # codes s (i + 1) (m - 1)"
proof -
  from assms have "[i ..< i + m] = i # [i + 1 ..< i + m]"
    by (simp add: upt_conv_Cons)
  moreover from assms have "i + 1 + (m - 1) = i + m" by simp
  ultimately show ?thesis by (simp add: codes_def)
qed

lemma codes_snoc: "codes s i (m + 1) = codes s i m @ [code s (i + m)]"
  by (simp add: codes_def)

lemma smod_INT_MAX_small: "0 \<le> v \<Longrightarrow> v < INT_MAX \<Longrightarrow> v smod INT_MAX = v"
  by (simp add: smod_int_alt_def INT_MAX_def sgn_if)

lemma pow2_int_small: "p \<le> 30 \<Longrightarrow> pow2_int (int p) = Inr (2 ^ p)"
  by (simp add: pow2_int_def)

lemma int_result_nonneg: "0 \<le> v \<Longrightarrow> v \<le> INT_MAX \<Longrightarrow> int_result ov v = Inr v"
  by (intro int_result_fits) (simp_all add: INT_MIN_def)

lemma hash_loop_value:
  assumes "ascii (chars s)" and "i + r \<le> strlen s + 1" and "r \<le> 31"
    and "len = int (i + r) - 1" and "p = int r - 1"
    and "0 \<le> val" and "val + weighted_sum (codes s i r) \<le> INT_MAX"
  shows "hash_loop ov s len i p val = Inr (val + weighted_sum (codes s i r))"
  using assms
proof (induction r arbitrary: i p val)
  case 0
  then show ?case
    by (subst hash_loop.simps) (simp add: codes_def)
next
  case (Suc r)
  let ?b = "code s i" and ?rest = "codes s (i + 1) r"
  have cs: "codes s i (Suc r) = ?b # ?rest"
    using codes_Cons [of "Suc r" s i] by simp
  from Suc.prems(2) have "i \<le> strlen s" by simp
  from char_at_code [OF this] obtain c where c: "char_at s i = Inr c" "int_of_char c = ?b"
    by blast
  from Suc.prems(3,5) have pw: "pow2_int p = Inr (2 ^ r)"
    using pow2_int_small [of r] by simp
  from Suc.prems(1,2) \<open>i \<le> strlen s\<close> have b: "0 \<le> ?b"
    using code_range [of s i] by simp
  from Suc.prems(1,2) have "0 \<le> weighted_sum ?rest"
    by (intro weighted_sum_bounds [THEN conjunct1] codes_range) simp_all
  with Suc.prems(6,7) b have t: "0 \<le> ?b * 2 ^ r" "?b * 2 ^ r \<le> INT_MAX"
    and v: "0 \<le> val + ?b * 2 ^ r" "val + ?b * 2 ^ r \<le> INT_MAX"
    and rest: "val + ?b * 2 ^ r + weighted_sum ?rest \<le> INT_MAX"
    unfolding cs by simp_all
  have "hash_loop ov s len (i + 1) (p - 1) (val + ?b * 2 ^ r)
          = Inr (val + ?b * 2 ^ r + weighted_sum ?rest)"
    using Suc.prems(1-5) v(1) rest by (intro Suc.IH) simp_all
  moreover from Suc.prems(4) have "int i \<le> len" by simp
  ultimately show ?case
    unfolding cs
    by (subst hash_loop.simps)
       (simp add: c pw mul_int_def add_int_def int_result_nonneg t v)
qed

lemma hash_value:
  assumes "ascii (chars s)" and "m \<le> 24" and "m \<le> strlen s + 1"
  shows "hash ov s (int m - 1) = Inr (weighted_sum (codes s 0 m))"
proof -
  from assms have range: "\<forall>c \<in> set (codes s 0 m). 0 \<le> c \<and> c \<le> 127"
    by (intro codes_range) simp_all
  from weighted_sum_short [OF range] assms(2)
  have ws: "0 \<le> weighted_sum (codes s 0 m)" "weighted_sum (codes s 0 m) < INT_MAX"
    by simp_all
  have "hash_loop ov s (int m - 1) 0 (int m - 1) 0 = Inr (0 + weighted_sum (codes s 0 m))"
    using assms ws by (intro hash_loop_value) simp_all
  with ws show ?thesis
    by (simp add: hash_def smod_INT_MAX_small)
qed

lemma rehash_value:
  assumes "ascii (chars s)" and "0 < m" and "m \<le> 24" and "i + m \<le> strlen s"
  shows "rehash ov (code s i) (weighted_sum (codes s i m)) (code s (i + m)) (int m - 1)
           = Inr (weighted_sum (codes s (i + 1) m))"
proof -
  let ?b = "code s i" and ?a = "code s (i + m)" and ?mid = "codes s (i + 1) (m - 1)"
  from assms(2) have old: "codes s i m = ?b # ?mid"
    by (rule codes_Cons)
  from assms(2) have new: "codes s (i + 1) m = ?mid @ [?a]"
    using codes_snoc [of s "i + 1" "m - 1"] by simp
  from assms have r_old: "\<forall>c \<in> set (codes s i m). 0 \<le> c \<and> c \<le> 127"
    and r_new: "\<forall>c \<in> set (codes s (i + 1) m). 0 \<le> c \<and> c \<le> 127"
    by (intro codes_range; simp)+
  from r_old have b: "0 \<le> ?b" and r_mid: "\<forall>c \<in> set ?mid. 0 \<le> c \<and> c \<le> 127"
    unfolding old by simp_all
  from r_new have a: "0 \<le> ?a" unfolding new by simp
  from weighted_sum_short [OF r_old] assms(3)
  have h: "0 \<le> weighted_sum (codes s i m)" "weighted_sum (codes s i m) < INT_MAX"
    by simp_all
  from weighted_sum_short [OF r_new] assms(3)
  have h': "0 \<le> weighted_sum (codes s (i + 1) m)" "weighted_sum (codes s (i + 1) m) < INT_MAX"
    by simp_all
  from weighted_sum_bounds [OF r_mid] have mid: "0 \<le> weighted_sum ?mid"
    by simp
  define t where "t = ?b * 2 ^ (m - 1)"
  have sum_old: "weighted_sum (codes s i m) = t + weighted_sum ?mid"
    unfolding old by (simp add: t_def)
  have sum_new: "weighted_sum (codes s (i + 1) m) = 2 * weighted_sum ?mid + ?a"
    unfolding new by (rule weighted_sum_snoc)
  have t: "0 \<le> t" using b by (simp add: t_def)
  from assms(2,3) have pw: "pow2_int (int m - 1) = Inr (2 ^ (m - 1))"
    using pow2_int_small [of "m - 1"] by (simp add: of_nat_diff)
  have 1: "mul_int ov ?b (2 ^ (m - 1)) = Inr t"
    unfolding mul_int_def t_def [symmetric]
    using t h mid sum_old by (intro int_result_nonneg) simp_all
  have 2: "sub_int ov (weighted_sum (codes s i m)) t = Inr (weighted_sum ?mid)"
    unfolding sub_int_def sum_old
    using t h mid sum_old by (simp add: int_result_nonneg)
  have 3: "mul_int ov (weighted_sum ?mid) 2 = Inr (2 * weighted_sum ?mid)"
    unfolding mul_int_def
    using a h' mid sum_new by (simp add: int_result_nonneg mult.commute)
  have 4: "add_int ov (2 * weighted_sum ?mid) ?a = Inr (weighted_sum (codes s (i + 1) m))"
    unfolding add_int_def sum_new [symmetric]
    using h' by (simp add: int_result_nonneg)
  have 5: "weighted_sum (codes s (i + 1) m) smod INT_MAX = weighted_sum (codes s (i + 1) m)"
    using h' by (rule smod_INT_MAX_small)
  show ?thesis
    unfolding rehash_def pw bind_Inr 1 2 3 4 5 ..
qed

lemma window_codes:
  assumes "window (chars S) i (strlen P) = chars P" and "i + strlen P \<le> strlen S"
  shows "codes S i (strlen P) = codes P 0 (strlen P)"
proof (rule nth_equalityI)
  show "length (codes S i (strlen P)) = length (codes P 0 (strlen P))" by simp
next
  fix k assume "k < length (codes S i (strlen P))"
  then have k: "k < strlen P" by simp
  from assms have "\<forall>l < length (chars P). chars P ! l = chars S ! (i + l)"
    using window_eq_iff [of i "chars P" "chars S"] by (simp add: length_chars)
  with k have "chars P ! k = chars S ! (i + k)" by (simp add: length_chars)
  with k assms(2) show "codes S i (strlen P) ! k = codes P 0 (strlen P) ! k"
    by (simp add: codes_def code_def nth_append length_chars)
qed

lemma karpRabin_loop_count:
  assumes "ascii (chars S)" and "n = strlen S" and "m = strlen P"
    and "0 < m" and "m \<le> 24" and "i + m \<le> n + 1"
    and "patHash = weighted_sum (codes P 0 m)"
    and "dnaHash = weighted_sum (codes S i m)"
  shows "karpRabin_loop ov S P n m patHash i dnaHash occ =
           Inr (occ + int (length (filter (\<lambda>k. window (chars S) k m = chars P) [i ..< Suc n - m])))"
  using assms
proof (induction "Suc n - m - i" arbitrary: i dnaHash occ)
  case 0
  then have "\<not> int i \<le> int n - int m" and "[i ..< Suc n - m] = []"
    by auto
  then show ?case
    by (subst karpRabin_loop.simps) simp
next
  case (Suc d)
  then have le: "i + m \<le> n" and cond: "int i \<le> int n - int m" by linarith+
  then have upt: "[i ..< Suc n - m] = i # [i + 1 ..< Suc n - m]"
    by (simp add: upt_conv_Cons)
  let ?hit = "window (chars S) i m = chars P"
  let ?occ = "if ?hit then occ + 1 else occ"
  have count: "(if patHash = dnaHash then
                  bind (compare S P m i 0) (\<lambda>j. Inr (if j = m then occ + 1 else occ))
                else Inr occ) = Inr ?occ"
  proof (cases "patHash = dnaHash")
    case True
    from compare_full [of i P S] le Suc.prems(2,3)
    obtain k where "compare S P m i 0 = Inr k" "k = m \<longleftrightarrow> ?hit"
      by auto
    with True show ?thesis by simp
  next
    case False
    have "\<not> ?hit"
    proof
      assume ?hit
      with le Suc.prems(2,3) have "codes S i m = codes P 0 m"
        using window_codes [of S i P] by simp
      with False Suc.prems(7,8) show False by simp
    qed
    with False show ?thesis by simp
  qed
  from le Suc.prems(2) have "i \<le> strlen S" "i + m \<le> strlen S" by simp_all
  from char_at_code [OF this(1)] char_at_code [OF this(2)]
  obtain b a where rd: "char_at S i = Inr b" "int_of_char b = code S i"
    "char_at S (i + m) = Inr a" "int_of_char a = code S (i + m)"
    by blast
  from Suc.prems(1,2,4,5,8) le
  have roll: "rehash ov (code S i) dnaHash (code S (i + m)) (int m - 1)
                = Inr (weighted_sum (codes S (i + 1) m))"
    using rehash_value [of S m i ov] by simp
  have "karpRabin_loop ov S P n m patHash (i + 1) (weighted_sum (codes S (i + 1) m)) ?occ =
          Inr (?occ + int (length (filter (\<lambda>k. window (chars S) k m = chars P)
                 [i + 1 ..< Suc n - m])))"
    using Suc.hyps(2) Suc.prems(1-5,7) le by (intro Suc.hyps(1)) simp_all
  then show ?case
    using cond
    by (subst karpRabin_loop.simps) (simp add: count rd roll upt)
qed

lemma karpRabin_short_pattern:
  assumes "ascii (chars S)" and "ascii (chars P)"
    and "0 < strlen P" and "strlen P \<le> 24" and "strlen P \<le> strlen S"
  shows "karpRabin ov S P = Inr (int (occurrence_count (chars S) (chars P)))"
proof -
  let ?m = "strlen P"
  from assms have ph: "hash ov P (int ?m - 1) = Inr (weighted_sum (codes P 0 ?m))"
    by (intro hash_value) simp_all
  from assms have dh: "hash ov S (int ?m - 1) = Inr (weighted_sum (codes S 0 ?m))"
    by (intro hash_value) simp_all
  from assms
  have "karpRabin_loop ov S P (strlen S) ?m (weighted_sum (codes P 0 ?m)) 0
          (weighted_sum (codes S 0 ?m)) 0
        = Inr (0 + int (length (filter (\<lambda>k. window (chars S) k ?m = chars P)
                 [0 ..< Suc (strlen S) - ?m])))"
    by (intro karpRabin_loop_count) simp_all
  then show ?thesis
    by (simp add: karpRabin_def Let_def ph dh occurrence_count_def length_chars)
qed

lemma strlen_drop: "i \<le> strlen s \<Longrightarrow> strlen (drop i s) = strlen s - i"
proof (induction s arbitrary: i)
  case Nil
  then show ?case by simp
next
  case (Cons c cs)
  then show ?case by (cases i) (auto split: if_splits)
qed

lemma chars_drop: "i \<le> strlen s \<Longrightarrow> chars (drop i s) = drop i (chars s)"
  by (simp add: chars_def strlen_drop drop_take)

lemma code_drop:
  assumes "i + k \<le> strlen s"
  shows "code (drop i s) k = code s (i + k)"
proof -
  from assms have "i \<le> strlen s" by simp
  then have "chars (drop i s) @ [NUL] = drop i (chars s @ [NUL])"
    by (simp add: chars_drop length_chars)
  then have "(chars (drop i s) @ [NUL]) ! k = drop i (chars s @ [NUL]) ! k"
    by simp
  also from assms have "\<dots> = (chars s @ [NUL]) ! (i + k)"
    by (intro nth_drop) (simp add: length_chars)
  finally show ?thesis by (simp add: code_def)
qed

lemma codes_drop:
  assumes "i + m \<le> strlen s + 1"
  shows "codes (drop i s) 0 m = codes s i m"
proof (rule nth_equalityI)
  show "length (codes (drop i s) 0 m) = length (codes s i m)" by simp
next
  fix k assume "k < length (codes (drop i s) 0 m)"
  then have "k < m" by simp
  with assms show "codes (drop i s) 0 m ! k = codes s i m ! k"
    by (simp add: codes_def code_drop)
qed

lemma ascii_drop: "ascii s \<Longrightarrow> ascii (drop i s)"
  by (auto simp: ascii_def dest: in_set_dropD)

lemma hash_window:
  assumes "ascii (chars s)" and "m \<le> 24" and "i + m \<le> strlen s + 1" and "i \<le> strlen s"
  shows "hash ov (drop i s) (int m - 1) = Inr (weighted_sum (codes s i m))"
proof -
  from assms have "hash ov (drop i s) (int m - 1) = Inr (weighted_sum (codes (drop i s) 0 m))"
    by (intro hash_value) (simp_all add: chars_drop ascii_drop strlen_drop)
  with assms(3) show ?thesis by (simp add: codes_drop)
qed

lemma rehash_matches_hash_short_window:
  assumes "ascii (chars S)" and "0 < m" and "m \<le> 24" and "i + m \<le> strlen S"
  shows "\<exists>h h'. hash ov (drop i S) (int m - 1) = Inr h
           \<and> hash ov (drop (i + 1) S) (int m - 1) = Inr h'
           \<and> rehash ov (code S i) h (code S (i + m)) (int m - 1) = Inr h'"
proof -
  from assms have "hash ov (drop i S) (int m - 1) = Inr (weighted_sum (codes S i m))"
    by (intro hash_window) simp_all
  moreover from assms
  have "hash ov (drop (i + 1) S) (int m - 1) = Inr (weighted_sum (codes S (i + 1) m))"
    by (intro hash_window) simp_all
  ultimately show ?thesis
    using rehash_value [OF assms, of ov] by simp
qed

lemma karpRabin_agrees_short_pattern:
  assumes "ascii (chars S)" and "ascii (chars P)"
    and "0 < strlen P" and "strlen P \<le> 24" and "strlen P \<le> strlen S"
  shows "karpRabin ov S P = bruteForce S P"
  using karpRabin_short_pattern [OF assms]
  by (simp add: bruteForce_def bruteForce_loop_count occurrence_count_def length_chars)

text \<open>The two lemmas at a concrete input: their hypotheses can be met.\<close>

lemma karpRabin_agrees_example:
  "ascii (chars ''acgtacgt'') \<and> ascii (chars ''acgt'')
   \<and> karpRabin ov ''acgtacgt'' ''acgt'' = bruteForce ''acgtacgt'' ''acgt''"
proof -
  have h: "ascii (chars ''acgtacgt'')" "ascii (chars ''acgt'')"
    "0 < strlen ''acgt''" "strlen ''acgt'' \<le> 24" "strlen ''acgt'' \<le> strlen ''acgtacgt''"
    by (simp_all add: ascii_def chars_def NUL_def)
  from karpRabin_agrees_short_pattern [OF h] h(1,2) show ?thesis by simp
qed

lemma rehash_matches_hash_example:
  "\<exists>h h'. hash ov (drop 0 ''acgtacgt'') (int 4 - 1) = Inr h
     \<and> hash ov (drop (0 + 1) ''acgtacgt'') (int 4 - 1) = Inr h'
     \<and> rehash ov (code ''acgtacgt'' 0) h (code ''acgtacgt'' (0 + 4)) (int 4 - 1) = Inr h'"
proof -
  have h: "ascii (chars ''acgtacgt'')" "0 < (4 :: nat)" "(4 :: nat) \<le> 24"
    "0 + 4 \<le> strlen ''acgtacgt''"
    by (simp_all add: ascii_def chars_def NUL_def)
  from rehash_matches_hash_short_window [OF h] show ?thesis .
qed

section \<open>The claims on the rolling hash\<close>

text \<open>
  C1 fails on the code, in two ways. With the empty pattern, \<open>(int) pow(2, -1)\<close> is 0, so
  \<open>rehash\<close> never removes the leaving symbol: the rolled hash is 0 at offset 0 only, and
  \<open>karpRabin\<close> counts one match where \<open>bruteForce\<close> counts \<open>|S| + 1\<close>. With a pattern of 25
  symbols or more the sum in \<open>hash\<close> overflows \<open>int\<close>. On the sequence below, of 28 symbols,
  and the pattern that is its last 27 symbols, \<open>bruteForce\<close> finds the match at offset 1;
  \<open>karpRabin\<close> is undefined, and with wrap-around it returns 0: the sum of the first
  window wraps to \<open>INT_MAX\<close>, \<open>% INT_MAX\<close> makes it 0, and the hash rolled from 0 is not the
  hash of the pattern.
\<close>

theorem karpRabin_differs_from_bruteForce:
  "bruteForce ''a'' [] = Inr 2 \<and> karpRabin ov ''a'' [] = Inr 1
   \<and> bruteForce ''ttcgaactattttaatataaataaaaaa'' ''tcgaactattttaatataaataaaaaa'' = Inr 1
   \<and> karpRabin Undefined ''ttcgaactattttaatataaataaaaaa'' ''tcgaactattttaatataaataaaaaa''
       = Inl SignedOverflow
   \<and> karpRabin Wraps ''ttcgaactattttaatataaataaaaaa'' ''tcgaactattttaatataaataaaaaa'' = Inr 0"
proof -
  have "bruteForce ''a'' [] = Inr 2"
    and "karpRabin Undefined ''a'' [] = Inr 1"
    and "karpRabin Wraps ''a'' [] = Inr 1"
    by code_simp+
  moreover
  have "bruteForce ''ttcgaactattttaatataaataaaaaa'' ''tcgaactattttaatataaataaaaaa'' = Inr 1"
    by code_simp
  moreover
  have "karpRabin Undefined ''ttcgaactattttaatataaataaaaaa'' ''tcgaactattttaatataaataaaaaa''
          = Inl SignedOverflow"
    by code_simp
  moreover
  have "karpRabin Wraps ''ttcgaactattttaatataaataaaaaa'' ''tcgaactattttaatataaataaaaaa'' = Inr 0"
    by code_simp
  ultimately show ?thesis by (cases ov) simp_all
qed

text \<open>
  C3 fails on the code. For the same sequence and window length 27, at offset 0: the hash
  of the first window is undefined (the sum overflows); with wrap-around it is 0, and
  \<open>rehash\<close> of it, with the leaving symbol \<open>t\<close> and the entering symbol \<open>a\<close>, is 1610612833,
  while the hash of the next window computed from scratch is 1610612831.
\<close>

theorem rehash_differs_from_hash:
  "hash Undefined ''ttcgaactattttaatataaataaaaaa'' 26 = Inl SignedOverflow
   \<and> hash Wraps ''ttcgaactattttaatataaataaaaaa'' 26 = Inr 0
   \<and> rehash Wraps (int_of_char CHR ''t'') 0 (int_of_char CHR ''a'') 26 = Inr 1610612833
   \<and> hash Wraps (drop 1 ''ttcgaactattttaatataaataaaaaa'') 26 = Inr 1610612831"
  by code_simp

section \<open>The table and the longest common subsequence\<close>

lemma lcs_table_0_right [simp]: "lcs_table A B i 0 = 0"
  by (cases i) simp_all

lemma lcs_table_bounds:
  "0 \<le> lcs_table A B i j \<and> lcs_table A B i j \<le> int (min i j)"
  by (induction A B i j rule: lcs_table.induct) auto

lemma lcs_table_sym: "lcs_table A B i j = lcs_table B A j i"
proof (induction A B i j rule: lcs_table.induct)
  case (3 A B i j)
  then show ?case by (cases "A ! i = B ! j") (simp_all add: max.commute)
qed simp_all

lemma subseq_snoc_cases:
  assumes "subseq zs (xs @ [x])"
  shows "subseq zs xs \<or> (\<exists>zs'. zs = zs' @ [x] \<and> subseq zs' xs)"
proof -
  from assms obtain zs1 zs2 where z: "zs = zs1 @ zs2" "subseq zs1 xs" "subseq zs2 [x]"
    by (auto simp: subseq_append_iff)
  from z(3) have "zs2 = [] \<or> zs2 = [x]"
    by (cases zs2) (auto split: if_splits)
  with z show ?thesis by auto
qed

lemma lcs_table_upper:
  assumes "i \<le> length A" and "j \<le> length B"
    and "subseq zs (take i A)" and "subseq zs (take j B)"
  shows "int (length zs) \<le> lcs_table A B i j"
  using assms
proof (induction A B i j arbitrary: zs rule: lcs_table.induct)
  case (1 A B j)
  then show ?case by simp
next
  case (2 A B i)
  then show ?case by simp
next
  case (3 A B i j)
  from "3.prems" have tA: "take (Suc i) A = take i A @ [A ! i]"
    and tB: "take (Suc j) B = take j B @ [B ! j]"
    by (simp_all add: take_Suc_conv_app_nth)
  from "3.prems" have le: "i \<le> length A" "j \<le> length B" by simp_all
  from "3.prems"(3) have A: "subseq zs (take i A) \<or> (\<exists>zs'. zs = zs' @ [A ! i] \<and> subseq zs' (take i A))"
    unfolding tA by (rule subseq_snoc_cases)
  from "3.prems"(4) have B: "subseq zs (take j B) \<or> (\<exists>zs'. zs = zs' @ [B ! j] \<and> subseq zs' (take j B))"
    unfolding tB by (rule subseq_snoc_cases)
  show ?case
  proof (cases "A ! i = B ! j")
    case True
    have "\<exists>zs'. subseq zs' (take i A) \<and> subseq zs' (take j B) \<and> length zs \<le> length zs' + 1"
    proof -
      consider (both) "subseq zs (take i A)" "subseq zs (take j B)"
        | (lastA) zs' where "zs = zs' @ [A ! i]" "subseq zs' (take i A)"
        | (lastB) zs' where "zs = zs' @ [B ! j]" "subseq zs' (take j B)" "subseq zs (take i A)"
        using A B by blast
      then show ?thesis
      proof cases
        case both
        then show ?thesis by (intro exI [of _ zs]) simp
      next
        case lastA
        with "3.prems"(4) True have "subseq zs' (take j B)"
          unfolding tB by simp
        with lastA show ?thesis by (intro exI [of _ zs']) simp
      next
        case lastB
        have "subseq zs' zs" unfolding lastB(1) by (rule subseq_rev_drop_many) simp
        with lastB(3) have "subseq zs' (take i A)" by (meson subseq_order.trans)
        with lastB show ?thesis by (intro exI [of _ zs']) simp
      qed
    qed
    then obtain zs' where zs': "subseq zs' (take i A)" "subseq zs' (take j B)"
      "length zs \<le> length zs' + 1"
      by blast
    from "3.IH"(1) [OF True le zs'(1,2)] zs'(3) True show ?thesis by simp
  next
    case False
    consider (dropA) "subseq zs (take i A)" | (dropB) "subseq zs (take j B)"
      using A B False by auto
    then show ?thesis
    proof cases
      case dropA
      from "3.IH"(2) [OF False le(1) "3.prems"(2) dropA "3.prems"(4)] False
      show ?thesis by simp
    next
      case dropB
      from "3.IH"(3) [OF False "3.prems"(1) le(2) "3.prems"(3) dropB] False
      show ?thesis by simp
    qed
  qed
qed

lemma lcs_table_attained:
  assumes "i \<le> length A" and "j \<le> length B"
  shows "\<exists>zs. subseq zs (take i A) \<and> subseq zs (take j B) \<and> int (length zs) = lcs_table A B i j"
  using assms
proof (induction A B i j rule: lcs_table.induct)
  case (1 A B j)
  then show ?case by simp
next
  case (2 A B i)
  then show ?case by simp
next
  case (3 A B i j)
  from "3.prems" have tA: "take (Suc i) A = take i A @ [A ! i]"
    and tB: "take (Suc j) B = take j B @ [B ! j]"
    by (simp_all add: take_Suc_conv_app_nth)
  from "3.prems" have le: "i \<le> length A" "j \<le> length B" by simp_all
  show ?case
  proof (cases "A ! i = B ! j")
    case True
    from "3.IH"(1) [OF True le]
    obtain zs where zs: "subseq zs (take i A)" "subseq zs (take j B)"
      "int (length zs) = lcs_table A B i j"
      by blast
    from zs(1,2) True have "subseq (zs @ [A ! i]) (take (Suc i) A)"
      "subseq (zs @ [A ! i]) (take (Suc j) B)"
      unfolding tA tB by simp_all
    with zs(3) True show ?thesis
      by (intro exI [of _ "zs @ [A ! i]"]) simp
  next
    case False
    from "3.IH"(2) [OF False le(1) "3.prems"(2)]
    obtain ys where ys: "subseq ys (take i A)" "subseq ys (take (Suc j) B)"
      "int (length ys) = lcs_table A B i (Suc j)"
      by blast
    from "3.IH"(3) [OF False "3.prems"(1) le(2)]
    obtain xs where xs: "subseq xs (take (Suc i) A)" "subseq xs (take j B)"
      "int (length xs) = lcs_table A B (Suc i) j"
      by blast
    from ys(1) have ys': "subseq ys (take (Suc i) A)"
      unfolding tA by (rule subseq_rev_drop_many)
    from xs(2) have xs': "subseq xs (take (Suc j) B)"
      unfolding tB by (rule subseq_rev_drop_many)
    show ?thesis
    proof (cases "lcs_table A B i (Suc j) \<le> lcs_table A B (Suc i) j")
      case True
      with xs xs' False show ?thesis by (intro exI [of _ xs]) simp
    next
      case le': False
      with ys ys' False show ?thesis by (intro exI [of _ ys]) simp
    qed
  qed
qed

lemma lcs_table_Max:
  "lcs_table A B (length A) (length B) = int (Max (length ` common_subsequences A B))"
proof -
  let ?S = "length ` common_subsequences A B"
  from lcs_table_attained [of "length A" A "length B" B]
  obtain zs where zs: "subseq zs A" "subseq zs B"
    "int (length zs) = lcs_table A B (length A) (length B)"
    by auto
  have fin: "finite ?S"
  proof (rule finite_subset)
    show "?S \<subseteq> {.. length A}"
      by (auto simp: common_subsequences_def dest: list_emb_length)
  qed simp
  have "Max ?S = length zs"
  proof (rule Max_eqI [OF fin])
    fix n assume "n \<in> ?S"
    then obtain ys where "subseq ys A" "subseq ys B" "n = length ys"
      by (auto simp: common_subsequences_def)
    with lcs_table_upper [of "length A" A "length B" B ys] zs(3)
    show "n \<le> length zs" by simp
  next
    from zs show "length zs \<in> ?S" by (auto simp: common_subsequences_def)
  qed
  with zs(3) show ?thesis by simp
qed

text \<open>The set of lengths is finite and not empty, so its maximum is a length in the set.\<close>

lemma common_subsequences_lengths:
  "finite (length ` common_subsequences A B) \<and> 0 \<in> length ` common_subsequences A B"
proof
  have "length ` common_subsequences A B \<subseteq> {.. length A}"
    by (auto simp: common_subsequences_def dest: list_emb_length)
  then show "finite (length ` common_subsequences A B)"
    by (rule finite_subset) simp
  have "[] \<in> common_subsequences A B"
    by (simp add: common_subsequences_def)
  then show "0 \<in> length ` common_subsequences A B"
    by force
qed

section \<open>lcss computes the table when the table fits\<close>

text \<open>
  When \<open>lenA * lenB\<close> fits \<open>int\<close>, no product of \<open>lcss\<close> overflows, the block is
  allocated, and every offset lies in it.
\<close>

lemma cell_less: "r < lenA \<Longrightarrow> c < lenB \<Longrightarrow> r * lenB + c < lenA * (lenB :: nat)"
proof -
  assume r: "r < lenA" and c: "c < lenB"
  have "r * lenB + c < r * lenB + lenB" using c by simp
  also have "\<dots> = Suc r * lenB" by simp
  also have "\<dots> \<le> lenA * lenB" using r by (intro mult_le_mono1) simp
  finally show ?thesis .
qed

lemma cell_inj:
  assumes "c < lenB" and "c' < lenB" and "r * lenB + c = r' * lenB + (c' :: nat)"
  shows "r = r' \<and> c = c'"
proof -
  from assms(1) have pos: "0 < lenB" by simp
  have "(r * lenB + c) div lenB = (r' * lenB + c') div lenB"
    using assms(3) by simp
  with pos assms(1,2) have "r = r'" by simp
  with assms(3) show ?thesis by simp
qed

lemma lcs_table_step:
  assumes "0 < i" and "0 < j"
  shows "lcs_table A B i j =
           (if A ! (i - 1) = B ! (j - 1) then lcs_table A B (i - 1) (j - 1) + 1
            else max (lcs_table A B (i - 1) j) (lcs_table A B i (j - 1)))"
  using assms by (cases i; cases j) simp_all

lemma table_inv_store:
  assumes inv: "table_inv A B lenA lenB i j arr"
    and i: "i < lenA" and j: "j < lenB"
    and v: "v = lcs_table (chars A) (chars B) i j"
  shows "table_inv A B lenA lenB i (j + 1) (arr[i * lenB + j := Some v])"
  unfolding table_inv_def
proof (intro conjI allI impI)
  from inv show "length (arr[i * lenB + j := Some v]) = lenA * lenB"
    by (simp add: table_inv_def)
next
  fix r c
  assume rc: "r < lenA \<and> c < lenB \<and> (r = 0 \<or> c = 0 \<or> r < i \<or> r = i \<and> c < j + 1)"
  from inv i j have len: "i * lenB + j < length arr"
    by (simp add: table_inv_def cell_less)
  show "arr[i * lenB + j := Some v] ! (r * lenB + c) = Some (lcs_table (chars A) (chars B) r c)"
  proof (cases "r = i \<and> c = j")
    case True
    with len v show ?thesis by simp
  next
    case False
    with rc j have ne: "r * lenB + c \<noteq> i * lenB + j"
      using cell_inj [of c lenB j r i] by blast
    from False rc have "r = 0 \<or> c = 0 \<or> r < i \<or> r = i \<and> c < j" by auto
    with inv rc have "arr ! (r * lenB + c) = Some (lcs_table (chars A) (chars B) r c)"
      unfolding table_inv_def by blast
    with ne show ?thesis by simp
  qed
qed

lemma table_inv_next_row:
  assumes "table_inv A B lenA lenB i lenB arr"
  shows "table_inv A B lenA lenB (i + 1) 1 arr"
  unfolding table_inv_def
proof (intro conjI allI impI)
  from assms show "length arr = lenA * lenB"
    by (simp add: table_inv_def)
next
  fix r c
  assume rc: "r < lenA \<and> c < lenB \<and> (r = 0 \<or> c = 0 \<or> r < i + 1 \<or> r = i + 1 \<and> c < 1)"
  then have "r < lenA \<and> c < lenB \<and> (r = 0 \<or> c = 0 \<or> r < i \<or> r = i \<and> c < lenB)"
    by auto
  with assms show "arr ! (r * lenB + c) = Some (lcs_table (chars A) (chars B) r c)"
    unfolding table_inv_def by blast
qed

lemma load_Some: "k < length arr \<Longrightarrow> arr ! k = Some v \<Longrightarrow> load arr (int k) = Inr v"
  by (simp add: load_def)

lemma store_ok: "k < length arr \<Longrightarrow> store arr (int k) v = Inr (arr[k := Some v])"
  by (simp add: store_def)

lemma cell_fits:
  assumes "int (lenA * lenB) \<le> INT_MAX" and "r < lenA"
  shows "cell ov (int r) (int lenB) c = Inr (int (r * lenB) + c)"
proof -
  from assms(2) have "r * lenB \<le> lenA * lenB" by (intro mult_le_mono1) simp
  with assms(1) have "int r * int lenB \<le> INT_MAX"
    by (metis of_nat_mult of_nat_le_iff order_trans)
  then have "mul_int ov (int r) (int lenB) = Inr (int r * int lenB)"
    unfolding mul_int_def by (intro int_result_nonneg) simp_all
  then show ?thesis by (simp add: cell_def)
qed

lemma malloc_fits:
  assumes "int n \<le> INT_MAX"
  shows "deref (malloc (size_t_mul (size_t_of_int (int n)) sizeof_int)) = Inr (replicate n None)"
proof -
  from assms have n: "int n \<le> 2147483647" by (simp add: INT_MAX_def)
  then have "size_t_of_int (int n) = int n"
    by (simp add: size_t_of_int_def)
  moreover from n have "size_t_mul (int n) sizeof_int = int n * 4"
    by (simp add: size_t_mul_def sizeof_int_def)
  ultimately show ?thesis
    using n by (simp add: malloc_def deref_def PTRDIFF_MAX_def sizeof_int_def)
qed

lemma lcss_col0_result:
  assumes "length arr = lenA * lenB" and "0 < lenB" and "int (lenA * lenB) \<le> INT_MAX"
    and "\<forall>r < i. arr ! (r * lenB) = Some 0"
  shows "\<exists>arr'. lcss_col0 ov arr lenA lenB i = Inr arr' \<and> length arr' = lenA * lenB
           \<and> (\<forall>r < lenA. arr' ! (r * lenB) = Some 0)"
  using assms
proof (induction ov arr lenA lenB i rule: lcss_col0.induct)
  case (1 ov arr lenA lenB i)
  show ?case
  proof (cases "i < lenA")
    case False
    with "1.prems" show ?thesis
      by (subst lcss_col0.simps) auto
  next
    case True
    with "1.prems" have k: "i * lenB < length arr"
      using cell_less [of i lenA 0 lenB] by simp
    from cell_fits [OF "1.prems"(3) True, of ov 0]
    have addr: "cell ov (int i) (int lenB) 0 = Inr (int (i * lenB))" by simp
    let ?arr = "arr[i * lenB := Some 0]"
    have "\<forall>r < i + 1. ?arr ! (r * lenB) = Some 0"
    proof (intro allI impI)
      fix r assume "r < i + 1"
      show "?arr ! (r * lenB) = Some 0"
      proof (cases "r = i")
        case True
        with k show ?thesis by simp
      next
        case False
        with \<open>r < i + 1\<close> have "r < i" by simp
        moreover from False "1.prems"(2) have "r * lenB \<noteq> i * lenB" by simp
        ultimately show ?thesis using "1.prems"(4) by simp
      qed
    qed
    moreover have "length ?arr = lenA * lenB" using "1.prems"(1) by simp
    ultimately
    have "\<exists>arr'. lcss_col0 ov ?arr lenA lenB (i + 1) = Inr arr' \<and> length arr' = lenA * lenB
            \<and> (\<forall>r < lenA. arr' ! (r * lenB) = Some 0)"
      using "1.prems"(2,3) True by (intro "1.IH") simp_all
    moreover have "lcss_col0 ov arr lenA lenB i = lcss_col0 ov ?arr lenA lenB (i + 1)"
      using True by (subst lcss_col0.simps) (simp only: if_True addr bind_Inr store_ok [OF k])
    ultimately show ?thesis by simp
  qed
qed

lemma lcss_row0_result:
  assumes "lenB \<le> length arr" and "\<forall>c < j. arr ! c = Some 0"
  shows "\<exists>arr'. lcss_row0 arr lenB j = Inr arr' \<and> length arr' = length arr
           \<and> (\<forall>c < lenB. arr' ! c = Some 0)
           \<and> (\<forall>k. lenB \<le> k \<longrightarrow> arr' ! k = arr ! k)"
  using assms
proof (induction arr lenB j rule: lcss_row0.induct)
  case (1 arr lenB j)
  show ?case
  proof (cases "j < lenB")
    case False
    with "1.prems" show ?thesis
      by (subst lcss_row0.simps) auto
  next
    case True
    with "1.prems" have k: "j < length arr" by simp
    let ?arr = "arr[j := Some 0]"
    have "\<forall>c < j + 1. ?arr ! c = Some 0"
      using "1.prems"(2) k by (auto simp: nth_list_update)
    with "1.IH" [OF True, of ?arr] "1.prems"(1)
    obtain arr' where arr': "lcss_row0 ?arr lenB (j + 1) = Inr arr'" "length arr' = length arr"
      "\<forall>c < lenB. arr' ! c = Some 0" "\<forall>k. lenB \<le> k \<longrightarrow> arr' ! k = ?arr ! k"
      by auto
    from arr'(4) True have "\<forall>k. lenB \<le> k \<longrightarrow> arr' ! k = arr ! k" by simp
    moreover have "lcss_row0 arr lenB j = lcss_row0 ?arr lenB (j + 1)"
      using True by (subst lcss_row0.simps) (simp only: if_True bind_Inr store_ok [OF k])
    ultimately show ?thesis using arr' by simp
  qed
qed

lemma lcss_cell:
  assumes inv: "table_inv A B lenA lenB i j arr"
    and lenA: "lenA = strlen A + 1" and lenB: "lenB = strlen B + 1"
    and fits: "int (lenA * lenB) \<le> INT_MAX"
    and i: "0 < i" "i < lenA" and j: "0 < j" "j < lenB"
  shows "bind (char_at A (i - 1)) (\<lambda>a.
         bind (char_at B (j - 1)) (\<lambda>b.
         bind (if a = b then
                 bind (cell ov (int i - 1) (int lenB) (int j - 1)) (\<lambda>diag.
                 bind (load arr diag) (\<lambda>v.
                 bind (add_int ov v 1) (\<lambda>v'.
                 bind (cell ov (int i) (int lenB) (int j)) (\<lambda>here.
                   store arr here v'))))
               else
                 bind (cell ov (int i) (int lenB) (int j - 1)) (\<lambda>left.
                 bind (load arr left) (\<lambda>x.
                 bind (cell ov (int i - 1) (int lenB) (int j)) (\<lambda>up.
                 bind (load arr up) (\<lambda>y.
                 bind (cell ov (int i) (int lenB) (int j)) (\<lambda>here.
                   store arr here (max x y))))))) f))
         = f (arr[i * lenB + j := Some (lcs_table (chars A) (chars B) i j)])"
proof -
  let ?T = "lcs_table (chars A) (chars B)"
  from i lenA have rdA: "char_at A (i - 1) = Inr (chars A ! (i - 1))"
    by (intro char_at_chars) simp
  from j lenB have rdB: "char_at B (j - 1) = Inr (chars B ! (j - 1))"
    by (intro char_at_chars) simp
  from inv have len: "length arr = lenA * lenB"
    by (simp add: table_inv_def)
  have known: "load arr (int (r * lenB + c)) = Inr (?T r c)"
    if "r < lenA" "c < lenB" "r = 0 \<or> c = 0 \<or> r < i \<or> r = i \<and> c < j" for r c
  proof -
    from that inv have "arr ! (r * lenB + c) = Some (?T r c)"
      unfolding table_inv_def by blast
    moreover from that len have "r * lenB + c < length arr"
      by (simp add: cell_less)
    ultimately show ?thesis by (rule load_Some [rotated])
  qed
  have im: "int i - 1 = int (i - 1)" and jm: "int j - 1 = int (j - 1)"
    using i(1) j(1) by simp_all
  from i have i': "i - 1 < lenA" by simp
  have a_here: "cell ov (int i) (int lenB) (int j) = Inr (int (i * lenB + j))"
    using cell_fits [OF fits i(2), of ov "int j"] by simp
  have a_diag: "cell ov (int i - 1) (int lenB) (int j - 1) = Inr (int ((i - 1) * lenB + (j - 1)))"
    unfolding im jm using cell_fits [OF fits i', of ov "int (j - 1)"] by simp
  have a_left: "cell ov (int i) (int lenB) (int j - 1) = Inr (int (i * lenB + (j - 1)))"
    unfolding jm using cell_fits [OF fits i(2), of ov "int (j - 1)"] by simp
  have a_up: "cell ov (int i - 1) (int lenB) (int j) = Inr (int ((i - 1) * lenB + j))"
    unfolding im using cell_fits [OF fits i', of ov "int j"] by simp
  from i j have diag: "load arr (int ((i - 1) * lenB + (j - 1))) = Inr (?T (i - 1) (j - 1))"
    by (intro known) auto
  from i j have left: "load arr (int (i * lenB + (j - 1))) = Inr (?T i (j - 1))"
    by (intro known) auto
  from i j have up: "load arr (int ((i - 1) * lenB + j)) = Inr (?T (i - 1) j)"
    by (intro known) auto
  from i j len have st: "store arr (int (i * lenB + j)) v = Inr (arr[i * lenB + j := Some v])" for v
    by (intro store_ok) (simp add: cell_less)
  have "int j \<le> int (lenA * lenB)"
  proof -
    from i(2) have "lenB \<le> lenA * lenB" by (cases lenA) simp_all
    with j(2) have "j \<le> lenA * lenB" by linarith
    then show ?thesis by (simp only: of_nat_le_iff)
  qed
  with fits have jmax: "int j \<le> INT_MAX" by simp
  have inc: "add_int ov (?T (i - 1) (j - 1)) 1 = Inr (?T (i - 1) (j - 1) + 1)"
  proof -
    have "int (min (i - 1) (j - 1)) \<le> int (j - 1)" by simp
    moreover from j(1) have "int (j - 1) + 1 = int j" by simp
    ultimately have "0 \<le> ?T (i - 1) (j - 1) + 1" "?T (i - 1) (j - 1) + 1 \<le> int j"
      using lcs_table_bounds [of "chars A" "chars B" "i - 1" "j - 1"] by linarith+
    with jmax show ?thesis
      unfolding add_int_def by (intro int_result_nonneg) simp_all
  qed
  show ?thesis
  proof (cases "chars A ! (i - 1) = chars B ! (j - 1)")
    case True
    with lcs_table_step [OF i(1) j(1), of "chars A" "chars B"]
    have "?T i j = ?T (i - 1) (j - 1) + 1" by simp
    with True show ?thesis
      by (simp only: rdA rdB bind_Inr simp_thms if_True a_diag diag inc a_here st)
  next
    case False
    with lcs_table_step [OF i(1) j(1), of "chars A" "chars B"]
    have "?T i j = max (?T i (j - 1)) (?T (i - 1) j)" by (simp add: max.commute)
    with False show ?thesis
      by (simp only: rdA rdB bind_Inr simp_thms if_False a_left left a_up up a_here st)
  qed
qed

lemma lcss_row_result:
  assumes "table_inv A B lenA lenB i j arr"
    and "lenA = strlen A + 1" and "lenB = strlen B + 1"
    and "int (lenA * lenB) \<le> INT_MAX"
    and "0 < i" and "i < lenA" and "0 < j" and "j \<le> lenB"
  shows "\<exists>arr'. lcss_row ov A B lenB i j arr = Inr arr' \<and> table_inv A B lenA lenB i lenB arr'"
  using assms
proof (induction ov A B lenB i j arr rule: lcss_row.induct)
  case (1 ov A B lenB i j arr)
  show ?case
  proof (cases "j < lenB")
    case False
    with "1.prems" have "j = lenB" by simp
    with "1.prems"(1) False show ?thesis
      by (subst lcss_row.simps) simp
  next
    case True
    let ?arr = "arr[i * lenB + j := Some (lcs_table (chars A) (chars B) i j)]"
    from "1.prems" True have inv': "table_inv A B lenA lenB i (j + 1) ?arr"
      by (intro table_inv_store) simp_all
    have "\<exists>arr'. lcss_row ov A B lenB i (j + 1) ?arr = Inr arr'
            \<and> table_inv A B lenA lenB i lenB arr'"
      using True inv' "1.prems" by (intro "1.IH") simp_all
    moreover have "lcss_row ov A B lenB i j arr = lcss_row ov A B lenB i (j + 1) ?arr"
    proof -
      have "lcss_row ov A B lenB i j arr =
              bind (char_at A (i - 1)) (\<lambda>a.
              bind (char_at B (j - 1)) (\<lambda>b.
              bind (if a = b then
                      bind (cell ov (int i - 1) (int lenB) (int j - 1)) (\<lambda>diag.
                      bind (load arr diag) (\<lambda>v.
                      bind (add_int ov v 1) (\<lambda>v'.
                      bind (cell ov (int i) (int lenB) (int j)) (\<lambda>here.
                        store arr here v'))))
                    else
                      bind (cell ov (int i) (int lenB) (int j - 1)) (\<lambda>left.
                      bind (load arr left) (\<lambda>x.
                      bind (cell ov (int i - 1) (int lenB) (int j)) (\<lambda>up.
                      bind (load arr up) (\<lambda>y.
                      bind (cell ov (int i) (int lenB) (int j)) (\<lambda>here.
                        store arr here (max x y)))))))
                (lcss_row ov A B lenB i (j + 1))))"
        by (subst lcss_row.simps) (simp only: True if_True)
      also have "\<dots> = lcss_row ov A B lenB i (j + 1) ?arr"
        using "1.prems" True by (intro lcss_cell [where lenA = lenA]) simp_all
      finally show ?thesis .
    qed
    ultimately show ?thesis by simp
  qed
qed

lemma lcss_rows_result:
  assumes "table_inv A B lenA lenB i 1 arr"
    and "lenA = strlen A + 1" and "lenB = strlen B + 1"
    and "int (lenA * lenB) \<le> INT_MAX"
    and "0 < i" and "i \<le> lenA"
  shows "\<exists>arr'. lcss_rows ov A B lenA lenB i arr = Inr arr'
           \<and> table_inv A B lenA lenB lenA 1 arr'"
  using assms
proof (induction ov A B lenA lenB i arr rule: lcss_rows.induct)
  case (1 ov A B lenA lenB i arr)
  show ?case
  proof (cases "i < lenA")
    case False
    with "1.prems" have "i = lenA" by simp
    with "1.prems"(1) False show ?thesis
      by (subst lcss_rows.simps) simp
  next
    case True
    from lcss_row_result [OF "1.prems"(1-5) True, of ov] "1.prems"(3)
    obtain arr1 where arr1: "lcss_row ov A B lenB i 1 arr = Inr arr1"
      "table_inv A B lenA lenB i lenB arr1"
      by auto
    have "\<exists>arr'. lcss_rows ov A B lenA lenB (i + 1) arr1 = Inr arr'
            \<and> table_inv A B lenA lenB lenA 1 arr'"
      using True "1.prems" table_inv_next_row [OF arr1(2)] by (intro "1.IH") simp_all
    with arr1 True show ?thesis
      by (subst lcss_rows.simps) simp
  qed
qed

lemma lcss_table:
  assumes fits: "int ((strlen A + 1) * (strlen B + 1)) \<le> INT_MAX"
  shows "lcss ov A B = Inr (lcs_table (chars A) (chars B) (strlen A) (strlen B))"
proof -
  let ?lenA = "strlen A + 1" and ?lenB = "strlen B + 1"
  let ?T = "lcs_table (chars A) (chars B)"
  let ?arr0 = "replicate (?lenA * ?lenB) (None :: int option)"
  have "int_result ov (int (?lenA * ?lenB)) = Inr (int (?lenA * ?lenB))"
    using fits by (intro int_result_nonneg) simp_all
  then have size: "mul_int ov (int ?lenA) (int ?lenB) = Inr (int (?lenA * ?lenB))"
    unfolding mul_int_def by (simp only: of_nat_mult)
  from fits have alloc:
    "deref (malloc (size_t_mul (size_t_of_int (int (?lenA * ?lenB))) sizeof_int)) = Inr ?arr0"
    by (rule malloc_fits)
  have "length ?arr0 = ?lenA * ?lenB" by simp
  from lcss_col0_result [OF this _ fits, of 0 ov]
  obtain arr1 where arr1: "lcss_col0 ov ?arr0 ?lenA ?lenB 0 = Inr arr1"
    "length arr1 = ?lenA * ?lenB" "\<forall>r < ?lenA. arr1 ! (r * ?lenB) = Some 0"
    by auto
  have "?lenB \<le> length arr1" using arr1(2) by simp
  from lcss_row0_result [OF this, of 0]
  obtain arr2 where arr2: "lcss_row0 arr1 ?lenB 0 = Inr arr2" "length arr2 = length arr1"
    "\<forall>c < ?lenB. arr2 ! c = Some 0" "\<forall>k. ?lenB \<le> k \<longrightarrow> arr2 ! k = arr1 ! k"
    by auto
  have inv: "table_inv A B ?lenA ?lenB 1 1 arr2"
    unfolding table_inv_def
  proof (intro conjI allI impI)
    show "length arr2 = ?lenA * ?lenB" using arr1(2) arr2(2) by simp
  next
    fix r c
    assume rc: "r < ?lenA \<and> c < ?lenB \<and> (r = 0 \<or> c = 0 \<or> r < 1 \<or> r = 1 \<and> c < 1)"
    then consider "r = 0" | "0 < r" "c = 0" by auto
    then show "arr2 ! (r * ?lenB + c) = Some (?T r c)"
    proof cases
      case 1
      with rc arr2(3) show ?thesis by simp
    next
      case 2
      then have "1 * ?lenB \<le> r * ?lenB" by (intro mult_le_mono1) simp
      then have "?lenB \<le> r * ?lenB" by simp
      with arr2(4) have "arr2 ! (r * ?lenB) = arr1 ! (r * ?lenB)" by blast
      with rc arr1(3) 2 show ?thesis by simp
    qed
  qed
  from lcss_rows_result [OF inv refl refl fits, of ov]
  obtain arr3 where arr3: "lcss_rows ov A B ?lenA ?lenB 1 arr2 = Inr arr3"
    "table_inv A B ?lenA ?lenB ?lenA 1 arr3"
    by auto
  have "cell ov (int (strlen A)) (int ?lenB) (int (strlen B)) =
          Inr (int (strlen A * ?lenB) + int (strlen B))"
    by (intro cell_fits [OF fits]) simp
  then have last: "cell ov (int ?lenA - 1) (int ?lenB) (int ?lenB - 1) =
          Inr (int (strlen A * ?lenB + strlen B))"
    by simp
  from arr3(2) have "length arr3 = ?lenA * ?lenB"
    and "arr3 ! (strlen A * ?lenB + strlen B) = Some (?T (strlen A) (strlen B))"
    unfolding table_inv_def by simp_all
  then have final: "load arr3 (int (strlen A * ?lenB + strlen B)) = Inr (?T (strlen A) (strlen B))"
    by (intro load_Some) (simp_all add: cell_less)
  show ?thesis
    unfolding lcss_def Let_def size bind_Inr alloc arr1(1) arr2(1) arr3(1) last final ..
qed

section \<open>The claims on lcss\<close>

text \<open>
  For strings whose table fits, that is \<open>(|A| + 1) * (|B| + 1) \<le> INT_MAX\<close>, \<open>lcss\<close> returns
  the entry \<open>T[|A|][|B|]\<close> of the recurrence, which is the length of the longest common
  subsequence; the value lies between 0 and \<open>min(|A|,|B|)\<close>; and the two orders of the
  arguments give the same value.
\<close>

lemma lcss_longest_common_subsequence_when_table_fits:
  assumes "int ((strlen A + 1) * (strlen B + 1)) \<le> INT_MAX"
  shows "lcss ov A B = Inr (lcs_table (chars A) (chars B) (strlen A) (strlen B))
       \<and> lcs_table (chars A) (chars B) (strlen A) (strlen B)
           = int (Max (length ` common_subsequences (chars A) (chars B)))"
  using lcs_table_Max [of "chars A" "chars B"] lcss_table [OF assms, of ov]
  by (simp add: length_chars)

lemma lcss_bounds_when_table_fits:
  assumes "int ((strlen A + 1) * (strlen B + 1)) \<le> INT_MAX"
  shows "\<exists>n. lcss ov A B = Inr n \<and> 0 \<le> n \<and> n \<le> int (min (strlen A) (strlen B))"
  using lcs_table_bounds [of "chars A" "chars B" "strlen A" "strlen B"]
  by (simp add: lcss_table [OF assms])

lemma lcss_symmetric_when_table_fits:
  assumes "int ((strlen A + 1) * (strlen B + 1)) \<le> INT_MAX"
  shows "\<exists>n. lcss ov A B = Inr n \<and> lcss ov B A = Inr n"
proof -
  from assms have "int ((strlen B + 1) * (strlen A + 1)) \<le> INT_MAX"
    by (simp only: mult.commute)
  from lcss_table [OF assms, of ov] lcss_table [OF this, of ov] show ?thesis
    by (simp add: lcs_table_sym [of "chars A"])
qed

lemma lcss_when_table_fits_example:
  "int ((strlen ''acgt'' + 1) * (strlen ''gtac'' + 1)) \<le> INT_MAX
   \<and> (\<exists>n. lcss ov ''acgt'' ''gtac'' = Inr n \<and> lcss ov ''gtac'' ''acgt'' = Inr n)"
proof -
  have h: "int ((strlen ''acgt'' + 1) * (strlen ''gtac'' + 1)) \<le> INT_MAX"
    by (simp add: NUL_def INT_MAX_def)
  from lcss_symmetric_when_table_fits [OF h] h show ?thesis by blast
qed

text \<open>
  Two strings of 46340 symbols need \<open>46341 * 46341 = 2147488281\<close> cells, more than
  \<open>INT_MAX\<close>. The product of line 148 overflows. With wrap-around it is \<open>-2147479015\<close>;
  converted to \<open>size_t\<close> and multiplied by 4 it is a request above \<open>PTRDIFF_MAX\<close>, \<open>malloc\<close>
  returns a null pointer, and line 150 writes through it.
\<close>

lemma strlen_replicate: "c \<noteq> NUL \<Longrightarrow> strlen (replicate n c) = n"
  by (induction n) simp_all

lemma lcss_Undefined_table_too_large:
  assumes "INT_MAX < int ((strlen A + 1) * (strlen B + 1))"
  shows "lcss Undefined A B = Inl SignedOverflow"
proof -
  from assms have "mul_int Undefined (int (strlen A + 1)) (int (strlen B + 1)) = Inl SignedOverflow"
    unfolding mul_int_def int_result_def by (simp only: of_nat_mult [symmetric]) simp
  then show ?thesis by (simp add: lcss_def Let_def)
qed

lemma lcss_Wraps_46341:
  assumes "strlen A = 46340" and "strlen B = 46340"
  shows "lcss Wraps A B = Inl NullDereference"
proof -
  have "mul_int Wraps 46341 46341 = Inr (- 2147479015)"
    by (simp add: mul_int_def int_result_def INT_MAX_def INT_MIN_def wrap_int_def)
  moreover have "deref (malloc (size_t_mul (size_t_of_int (- 2147479015)) sizeof_int))
      = Inl NullDereference"
    by (simp add: size_t_of_int_def size_t_mul_def sizeof_int_def malloc_def deref_def
        PTRDIFF_MAX_def)
  ultimately show ?thesis
    using assms by (simp add: lcss_def Let_def)
qed

lemma Max_common_subsequences_self:
  "Max (length ` common_subsequences A A) = length A"
proof (rule Max_eqI)
  show "finite (length ` common_subsequences A A)"
    using common_subsequences_lengths [of A A] by simp
next
  fix n assume "n \<in> length ` common_subsequences A A"
  then show "n \<le> length A"
    by (auto simp: common_subsequences_def dest: list_emb_length)
next
  show "length A \<in> length ` common_subsequences A A"
    by (auto simp: common_subsequences_def)
qed

lemma lcss_46340:
  assumes "strlen A = 46340" and "strlen B = 46340"
  shows "lcss Undefined A B = Inl SignedOverflow" and "lcss Wraps A B = Inl NullDereference"
proof -
  have "INT_MAX < int ((strlen A + 1) * (strlen B + 1))"
    unfolding assms by (simp add: INT_MAX_def)
  then show "lcss Undefined A B = Inl SignedOverflow"
    by (rule lcss_Undefined_table_too_large)
  from assms show "lcss Wraps A B = Inl NullDereference"
    by (rule lcss_Wraps_46341)
qed

lemma strlen_46340:
  "strlen (replicate 46340 CHR ''a'') = 46340" "strlen (replicate 46340 CHR ''c'') = 46340"
proof -
  have a: "CHR ''a'' \<noteq> NUL" and c: "CHR ''c'' \<noteq> NUL" by (simp_all add: NUL_def)
  from a show "strlen (replicate 46340 CHR ''a'') = 46340" by (rule strlen_replicate)
  from c show "strlen (replicate 46340 CHR ''c'') = 46340" by (rule strlen_replicate)
qed

text \<open>
  C5 fails on the code. On two copies of the string of 46340 symbols \<open>a\<close> the longest
  common subsequence has length 46340, and \<open>lcss\<close> returns no length: the product
  \<open>lenA * lenB\<close> overflows, and with wrap-around the null pointer is written through.
\<close>

theorem lcss_table_too_large:
  "lcss Undefined (replicate 46340 CHR ''a'') (replicate 46340 CHR ''a'') = Inl SignedOverflow
   \<and> lcss Wraps (replicate 46340 CHR ''a'') (replicate 46340 CHR ''a'') = Inl NullDereference
   \<and> Max (length ` common_subsequences (replicate 46340 CHR ''a'') (replicate 46340 CHR ''a''))
       = 46340"
proof (intro conjI)
  show "lcss Undefined (replicate 46340 CHR ''a'') (replicate 46340 CHR ''a'') = Inl SignedOverflow"
    by (rule lcss_46340 [OF strlen_46340(1) strlen_46340(1)])
  show "lcss Wraps (replicate 46340 CHR ''a'') (replicate 46340 CHR ''a'') = Inl NullDereference"
    by (rule lcss_46340 [OF strlen_46340(1) strlen_46340(1)])
  show "Max (length ` common_subsequences (replicate 46340 CHR ''a'') (replicate 46340 CHR ''a''))
      = 46340"
    by (simp only: Max_common_subsequences_self length_replicate)
qed

text \<open>
  C7 fails on the code. On the same two strings \<open>min(|A|,|B|)\<close> is 46340, and \<open>lcss\<close>
  returns no value to lie between 0 and it, under either reading of overflow.
\<close>

theorem lcss_no_length_on_large_table:
  "min (strlen (replicate 46340 CHR ''a'')) (strlen (replicate 46340 CHR ''a'')) = 46340
   \<and> lcss ov (replicate 46340 CHR ''a'') (replicate 46340 CHR ''a'') \<noteq> Inr n"
proof (intro conjI)
  show "min (strlen (replicate 46340 CHR ''a'')) (strlen (replicate 46340 CHR ''a'')) = 46340"
    unfolding strlen_46340 by simp
  have "lcss Undefined (replicate 46340 CHR ''a'') (replicate 46340 CHR ''a'') \<noteq> Inr n"
    unfolding lcss_46340 [OF strlen_46340(1) strlen_46340(1)] by simp
  moreover
  have "lcss Wraps (replicate 46340 CHR ''a'') (replicate 46340 CHR ''a'') \<noteq> Inr n"
    unfolding lcss_46340 [OF strlen_46340(1) strlen_46340(1)] by simp
  ultimately show "lcss ov (replicate 46340 CHR ''a'') (replicate 46340 CHR ''a'') \<noteq> Inr n"
    by (cases ov) blast+
qed

text \<open>
  C8 fails on the code. On 46340 symbols \<open>a\<close> and 46340 symbols \<open>c\<close>, \<open>lcss\<close> returns a length
  in neither order of the arguments.
\<close>

theorem lcss_fails_in_both_orders:
  "lcss Undefined (replicate 46340 CHR ''a'') (replicate 46340 CHR ''c'') = Inl SignedOverflow
   \<and> lcss Undefined (replicate 46340 CHR ''c'') (replicate 46340 CHR ''a'') = Inl SignedOverflow
   \<and> lcss Wraps (replicate 46340 CHR ''a'') (replicate 46340 CHR ''c'') = Inl NullDereference
   \<and> lcss Wraps (replicate 46340 CHR ''c'') (replicate 46340 CHR ''a'') = Inl NullDereference"
proof (intro conjI)
  show "lcss Undefined (replicate 46340 CHR ''a'') (replicate 46340 CHR ''c'') = Inl SignedOverflow"
    by (rule lcss_46340 [OF strlen_46340(1) strlen_46340(2)])
  show "lcss Undefined (replicate 46340 CHR ''c'') (replicate 46340 CHR ''a'') = Inl SignedOverflow"
    by (rule lcss_46340 [OF strlen_46340(2) strlen_46340(1)])
  show "lcss Wraps (replicate 46340 CHR ''a'') (replicate 46340 CHR ''c'') = Inl NullDereference"
    by (rule lcss_46340 [OF strlen_46340(1) strlen_46340(2)])
  show "lcss Wraps (replicate 46340 CHR ''c'') (replicate 46340 CHR ''a'') = Inl NullDereference"
    by (rule lcss_46340 [OF strlen_46340(2) strlen_46340(1)])
qed

section \<open>The claim on the distance\<close>

text \<open>
  Whenever one of the two strings is empty and the table fits, \<open>lcss\<close> returns 0 and line
  211 computes \<open>1 - 0 / 0\<close>.
\<close>

lemma distance_never_signalled:
  assumes "min (strlen A) (strlen B) = 0"
    and "int ((strlen A + 1) * (strlen B + 1)) \<le> INT_MAX"
  shows "main ov ''-lcss'' A B = Inr (Similarity 0 NaN)"
proof -
  from lcs_table_bounds [of "chars A" "chars B" "strlen A" "strlen B"] assms(1)
  have "lcss ov A B = Inr 0" by (simp add: lcss_table [OF assms(2)])
  with assms(1) show ?thesis
    by (simp add: main_def distance_def float_div_def)
qed

text \<open>
  C2 fails on the code. Line 211 divides by \<open>min(strlen(dnaSequence), strlen(patternSequence))\<close>
  with no check: with an empty sequence the quotient is \<open>0 / 0\<close>, and \<open>main\<close> reports the
  distance NaN and returns normally.
\<close>

theorem distance_zero_denominator:
  "min (strlen []) (strlen ''acgt'') = 0
   \<and> main ov ''-lcss'' [] ''acgt'' = Inr (Similarity 0 NaN)"
proof -
  have "min (strlen []) (strlen ''acgt'') = 0"
    and "main Undefined ''-lcss'' [] ''acgt'' = Inr (Similarity 0 NaN)"
    and "main Wraps ''-lcss'' [] ''acgt'' = Inr (Similarity 0 NaN)"
    by code_simp+
  then show ?thesis by (cases ov) simp_all
qed

section \<open>The concrete scenarios of the specification\<close>

text \<open>
  \<open>S = "acgtacgt"\<close>, \<open>P = "acgt"\<close>: both matchers return 2. \<open>A = "acgt"\<close>, \<open>B = "gtac"\<close>:
  the length is 2 and the distance \<open>1 - 2/4\<close>. \<open>A = ""\<close>, \<open>B = "acgt"\<close>: the length is 0.
\<close>

lemma scenario_1:
  "bruteForce ''acgtacgt'' ''acgt'' = Inr 2 \<and> karpRabin Undefined ''acgtacgt'' ''acgt'' = Inr 2
   \<and> karpRabin Wraps ''acgtacgt'' ''acgt'' = Inr 2"
  by code_simp

lemma scenario_3:
  "main Undefined ''-lcss'' ''acgt'' ''gtac'' = Inr (Similarity 2 (Finite (1 / 2)))"
  by code_simp

lemma scenario_4: "lcss Undefined [] ''acgt'' = Inr 0 \<and> lcss Wraps [] ''acgt'' = Inr 0"
  by code_simp

end
